theory Spec2Isabelle
  imports Complex_Main "HOL-Library.AList" "HOL-Library.Multiset"
begin

section \<open>Data structures\<close>

text \<open>
  The program computes with \<^verbatim>\<open>float64\<close>. Finite values are idealised as real numbers
  (no rounding, no NaN). The only infinite value the program creates is
  \<^verbatim>\<open>math.Inf(1)\<close>, the initial entry of Dijkstra's distance map; distance values are
  therefore modelled by \<open>xreal\<close>, a real number or \<open>PInf\<close>.
\<close>

record Point =
  X :: real
  Y :: real

record TelecomSite =
  site_ID :: string
  site_Location :: Point

record Hub =
  hub_ID :: string
  hub_Location :: Point

record EmergencyCenter =
  ec_ID :: string
  ec_Location :: Point

text \<open>
  The Go errors are values built from message strings. One constructor stands for each
  message: \<open>InvalidEntity\<close> for "invalid ... data", \<open>InvalidCount\<close> for "N must be greater
  than 0", \<open>InsufficientCandidates\<close> for "not enough hubs to find the nearest N hubs",
  \<open>GraphIsNil\<close> for "graph is nil", \<open>UnknownStartNode\<close> for "start node ... does not exist
  in the graph", \<open>NoPathFound\<close> for "no path found from ... to ...", and \<open>BuildError\<close> for
  the wrapped error of \<^verbatim>\<open>BuildNetworkGraph\<close> (the entity's identifier and the cause).
  \<open>NilMapAssignment\<close> is the run-time panic of an assignment into a missing (nil) inner map.
\<close>

datatype error =
    InvalidEntity
  | InvalidCount
  | InsufficientCandidates
  | GraphIsNil
  | UnknownStartNode
  | NoPathFound
  | NilMapAssignment
  | BuildError string error

definition zero_Point :: Point where
  "zero_Point = \<lparr>X = 0, Y = 0\<rparr>"

definition zero_EmergencyCenter :: EmergencyCenter where
  "zero_EmergencyCenter = \<lparr>ec_ID = [], ec_Location = zero_Point\<rparr>"

definition Validate_site :: "TelecomSite \<Rightarrow> error option" where
  "Validate_site site =
     (if site_ID site = [] \<or> site_Location site = zero_Point then Some InvalidEntity else None)"

definition Validate_hub :: "Hub \<Rightarrow> error option" where
  "Validate_hub h =
     (if hub_ID h = [] \<or> hub_Location h = zero_Point then Some InvalidEntity else None)"

definition Validate_ec :: "EmergencyCenter \<Rightarrow> error option" where
  "Validate_ec ec =
     (if ec_ID ec = [] \<or> ec_Location ec = zero_Point then Some InvalidEntity else None)"

definition CalculateDistance :: "Point \<Rightarrow> Point \<Rightarrow> real" where
  "CalculateDistance a b = sqrt ((X a - X b)\<^sup>2 + (Y a - Y b)\<^sup>2)"

section \<open>Nearest-neighbour search\<close>

definition MaxFloat64 :: real where
  "MaxFloat64 = (2 - 1 / 2 ^ 52) * 2 ^ 1023"

text \<open>
  The loop of \<^verbatim>\<open>FindNearestEmergencyCenter\<close>: the state is the pair
  \<^verbatim>\<open>(nearestCenter, minDistance)\<close>.
\<close>

fun nearest_loop :: "Point \<Rightarrow> EmergencyCenter list \<Rightarrow> EmergencyCenter \<Rightarrow> real \<Rightarrow> EmergencyCenter" where
  "nearest_loop p [] nearestCenter minDistance = nearestCenter"
| "nearest_loop p (center # centers) nearestCenter minDistance =
     (let dist = CalculateDistance p (ec_Location center)
      in if dist < minDistance then nearest_loop p centers center dist
         else nearest_loop p centers nearestCenter minDistance)"

definition FindNearestEmergencyCenter :: "TelecomSite \<Rightarrow> EmergencyCenter list \<Rightarrow> error + EmergencyCenter" where
  "FindNearestEmergencyCenter site centers =
     (case Validate_site site of
        Some err \<Rightarrow> Inl err
      | None \<Rightarrow> Inr (nearest_loop (site_Location site) centers zero_EmergencyCenter MaxFloat64))"

text \<open>The distance \<^verbatim>\<open>FindNearestEmergencyCenter\<close> compares.\<close>

definition center_distance :: "TelecomSite \<Rightarrow> EmergencyCenter \<Rightarrow> real" where
  "center_distance site c = CalculateDistance (site_Location site) (ec_Location c)"

record hubDistance =
  hub :: Hub
  distance :: real

text \<open>
  The two nested loops that sort \<^verbatim>\<open>distances\<close> in place: \<open>sort_inner\<close> is the loop over
  \<^verbatim>\<open>j\<close>, \<open>sort_outer\<close> the loop over \<^verbatim>\<open>i\<close>.
\<close>

function sort_inner :: "nat \<Rightarrow> nat \<Rightarrow> hubDistance list \<Rightarrow> hubDistance list" where
  "sort_inner i j ds =
     (if j < length ds
      then sort_inner i (j + 1)
             (if distance (ds ! j) < distance (ds ! i) then ds[i := ds ! j, j := ds ! i] else ds)
      else ds)"
  by pat_completeness auto
termination
  by (relation "measure (\<lambda>(i, j, ds). length ds - j)") auto

declare sort_inner.simps [simp del]

function sort_outer :: "nat \<Rightarrow> hubDistance list \<Rightarrow> hubDistance list" where
  "sort_outer i ds =
     (if int i < int (length ds) - 1 then sort_outer (i + 1) (sort_inner i (i + 1) ds) else ds)"
  by pat_completeness auto
termination
proof -
  have len: "length (sort_inner i j ds) = length ds" for i j ds
    by (induction i j ds rule: sort_inner.induct) (subst sort_inner.simps, simp)
  show ?thesis
    by (relation "measure (\<lambda>(i, ds). length ds - i)") (auto simp: len)
qed

declare sort_outer.simps [simp del]

text \<open>
  \<^verbatim>\<open>N\<close> is a Go \<^verbatim>\<open>int\<close>. It is only compared with 0 and with a length and then used as
  a length, so no arithmetic can overflow and it is an integer here.
\<close>

definition FindNearestHubs :: "Point \<Rightarrow> Hub list \<Rightarrow> int \<Rightarrow> error + Hub list" where
  "FindNearestHubs point hubs N =
     (if N \<le> 0 then Inl InvalidCount
      else if int (length hubs) < N then Inl InsufficientCandidates
      else
        let distances = map (\<lambda>h. \<lparr>hub = h, distance = CalculateDistance point (hub_Location h)\<rparr>) hubs;
            distances = sort_outer 0 distances
        in Inr (map hub (take (nat N) distances)))"

text \<open>
  The distance \<^verbatim>\<open>FindNearestHubs\<close> sorts by, and the loop invariant of its outer loop:
  the first \<open>i\<close> entries are in ascending order and none of them is farther than a
  later entry.
\<close>

definition hub_distance :: "Point \<Rightarrow> Hub \<Rightarrow> real" where
  "hub_distance point h = CalculateDistance point (hub_Location h)"

definition sorted_upto :: "nat \<Rightarrow> hubDistance list \<Rightarrow> bool" where
  "sorted_upto i ds =
     (sorted (map distance (take i ds)) \<and>
      (\<forall>x\<in>set (take i ds). \<forall>y\<in>set (drop i ds). distance x \<le> distance y))"

text \<open>
  The result as the specification words it, for comparison with the code: the \<open>N\<close>
  candidates of smallest distance in ascending order, equal distances in input order
  (a stable sort, then its first \<open>N\<close> entries).
\<close>

definition spec_nearest_stable :: "Point \<Rightarrow> Hub list \<Rightarrow> int \<Rightarrow> Hub list" where
  "spec_nearest_stable point hubs N = take (nat N) (sort_key (hub_distance point) hubs)"

section \<open>Graph\<close>

text \<open>
  A Go map that the program iterates over is an association list: the order of its
  entries is the order a \<^verbatim>\<open>range\<close> loop visits them in, which Go leaves unspecified, so
  statements about every graph cover every iteration order. Lookup is \<open>map_of\<close>.
\<close>

record Graph =
  Nodes :: "(string \<times> bool) list"
  Neighbors :: "(string \<times> (string \<times> real) list) list"

definition NewGraph :: Graph where
  "NewGraph = \<lparr>Nodes = [], Neighbors = []\<rparr>"

definition AddNode :: "Graph \<Rightarrow> string \<Rightarrow> Graph" where
  "AddNode g node =
     (if map_of (Nodes g) node = None
      then g\<lparr>Nodes := AList.update node True (Nodes g),
             Neighbors := AList.update node [] (Neighbors g)\<rparr>
      else g)"

text \<open>The assignment \<^verbatim>\<open>g.Neighbors[a][b] = cost\<close>; it panics when \<^verbatim>\<open>g.Neighbors[a]\<close> is missing.\<close>

definition set_weight :: "Graph \<Rightarrow> string \<Rightarrow> string \<Rightarrow> real \<Rightarrow> error + Graph" where
  "set_weight g a b cost =
     (case map_of (Neighbors g) a of
        None \<Rightarrow> Inl NilMapAssignment
      | Some m \<Rightarrow> Inr (g\<lparr>Neighbors := AList.update a (AList.update b cost m) (Neighbors g)\<rparr>))"

definition AddEdge :: "Graph \<Rightarrow> string \<Rightarrow> string \<Rightarrow> real \<Rightarrow> error + Graph" where
  "AddEdge g frm to cost =
     (let g1 = AddNode g frm; g2 = AddNode g1 to
      in case set_weight g2 frm to cost of
           Inl err \<Rightarrow> Inl err
         | Inr g3 \<Rightarrow> set_weight g3 to frm cost)"

text \<open>\<^verbatim>\<open>Neighbors[a][b]\<close> as a lookup that may find nothing.\<close>

definition weight_of :: "Graph \<Rightarrow> string \<Rightarrow> string \<Rightarrow> real option" where
  "weight_of g a b = (case map_of (Neighbors g) a of None \<Rightarrow> None | Some m \<Rightarrow> map_of m b)"

text \<open>
  A sequence of calls on a graph, run from left to right; a panic ends the run.
\<close>

datatype graph_op = OpAddNode string | OpAddEdge string string real

fun apply_ops :: "Graph \<Rightarrow> graph_op list \<Rightarrow> error + Graph" where
  "apply_ops g [] = Inr g"
| "apply_ops g (OpAddNode node # ops) = apply_ops (AddNode g node) ops"
| "apply_ops g (OpAddEdge frm to cost # ops) =
     (case AddEdge g frm to cost of Inl err \<Rightarrow> Inl err | Inr g' \<Rightarrow> apply_ops g' ops)"

text \<open>
  \<open>has_node\<close> is the test \<^verbatim>\<open>_, exists := g.Nodes[a]\<close>; \<open>has_neighbor_map\<close> says that
  \<^verbatim>\<open>g.Neighbors[a]\<close> is present. The invariants of a graph: both maps have the same keys,
  the weights are symmetric, and every neighbour key is a node.
\<close>

definition has_node :: "Graph \<Rightarrow> string \<Rightarrow> bool" where
  "has_node g a = (map_of (Nodes g) a \<noteq> None)"

definition has_neighbor_map :: "Graph \<Rightarrow> string \<Rightarrow> bool" where
  "has_neighbor_map g a = (map_of (Neighbors g) a \<noteq> None)"

definition keys_agree :: "Graph \<Rightarrow> bool" where
  "keys_agree g = (\<forall>a. has_node g a = has_neighbor_map g a)"

definition symmetric :: "Graph \<Rightarrow> bool" where
  "symmetric g = (\<forall>a b w. (weight_of g a b = Some w) = (weight_of g b a = Some w))"

definition neighbors_are_nodes :: "Graph \<Rightarrow> bool" where
  "neighbors_are_nodes g = (\<forall>a b. weight_of g a b \<noteq> None \<longrightarrow> has_node g b)"

section \<open>Shortest paths\<close>

datatype xreal = Fin real | PInf

instantiation xreal :: linorder
begin

definition less_eq_xreal :: "xreal \<Rightarrow> xreal \<Rightarrow> bool" where
  "less_eq_xreal a b =
     (case b of PInf \<Rightarrow> True | Fin y \<Rightarrow> (case a of PInf \<Rightarrow> False | Fin x \<Rightarrow> x \<le> y))"

definition less_xreal :: "xreal \<Rightarrow> xreal \<Rightarrow> bool" where
  "less_xreal a b =
     (case a of PInf \<Rightarrow> False | Fin x \<Rightarrow> (case b of PInf \<Rightarrow> True | Fin y \<Rightarrow> x < y))"

instance
  by standard (auto simp: less_eq_xreal_def less_xreal_def split: xreal.splits)

end

text \<open>\<^verbatim>\<open>distances[current] + cost\<close>, a distance plus an edge weight.\<close>

definition xadd :: "xreal \<Rightarrow> real \<Rightarrow> xreal" where
  "xadd a c = (case a of PInf \<Rightarrow> PInf | Fin x \<Rightarrow> Fin (x + c))"

text \<open>
  An item of the priority queue. The field \<^verbatim>\<open>Index\<close> is written by the queue's
  \<^verbatim>\<open>Swap\<close>, \<^verbatim>\<open>Push\<close> and \<^verbatim>\<open>Pop\<close> and read by nothing, so it is left out.
\<close>

record Item =
  Value :: string
  Priority :: xreal

definition Less :: "Item list \<Rightarrow> nat \<Rightarrow> nat \<Rightarrow> bool" where
  "Less pq i j = (Priority (pq ! i) < Priority (pq ! j))"

text \<open>
  \<^verbatim>\<open>container/heap\<close> is library code: \<^verbatim>\<open>heap.Push\<close> adds an item and \<^verbatim>\<open>heap.Pop\<close> removes
  and returns an item that no other item is \<open>Less\<close> than. Which of several minimal items
  it returns depends on the layout of the heap; the model takes that choice as the
  function \<open>sel\<close>, so a statement about every \<open>sel\<close> covers every layout. The queue is
  the list of its items in the order they were pushed. \<^verbatim>\<open>heap.Pop\<close> is called on a
  non-empty queue only (the loop tests \<^verbatim>\<open>Len() > 0\<close> first).
\<close>

definition heap_Push :: "Item list \<Rightarrow> Item \<Rightarrow> Item list" where
  "heap_Push pq item = pq @ [item]"

definition min_positions :: "Item list \<Rightarrow> nat list" where
  "min_positions pq =
     filter (\<lambda>i. list_all (\<lambda>j. \<not> Less pq j i) [0..<length pq]) [0..<length pq]"

definition heap_Pop :: "(Item list \<Rightarrow> nat) \<Rightarrow> Item list \<Rightarrow> Item \<times> Item list" where
  "heap_Pop sel pq =
     (let cands = min_positions pq;
          i = cands ! (sel pq mod length cands)
      in (pq ! i, take i pq @ drop (Suc i) pq))"

text \<open>
  The state of the loop of \<^verbatim>\<open>Dijkstra\<close>. \<^verbatim>\<open>visited\<close> is a \<^verbatim>\<open>map[string]bool\<close> that only
  ever stores \<^verbatim>\<open>true\<close>: a set.
\<close>

record dstate =
  distances :: "string \<rightharpoonup> xreal"
  previous :: "string \<rightharpoonup> string"
  priorityQueue :: "Item list"
  visited :: "string set"

text \<open>Reading \<^verbatim>\<open>distances[k]\<close>: a missing key reads as the zero value.\<close>

definition dist_at :: "(string \<rightharpoonup> xreal) \<Rightarrow> string \<Rightarrow> xreal" where
  "dist_at d k = (case d k of None \<Rightarrow> Fin 0 | Some x \<Rightarrow> x)"

text \<open>\<^verbatim>\<open>graph.Neighbors[current]\<close> as a \<^verbatim>\<open>range\<close> loop sees it: nothing when the key is missing.\<close>

definition neighbors_of :: "Graph \<Rightarrow> string \<Rightarrow> (string \<times> real) list" where
  "neighbors_of g v = (case map_of (Neighbors g) v of None \<Rightarrow> [] | Some nb \<Rightarrow> nb)"

text \<open>The body of the loop over the neighbours of \<^verbatim>\<open>current\<close>.\<close>

definition relax :: "string \<Rightarrow> dstate \<Rightarrow> string \<times> real \<Rightarrow> dstate" where
  "relax current st e =
     (let neighbor = fst e; cost = snd e;
          alt = xadd (dist_at (distances st) current) cost
      in if alt < dist_at (distances st) neighbor
         then st\<lparr>distances := (distances st)(neighbor \<mapsto> alt),
                 previous := (previous st)(neighbor \<mapsto> current),
                 priorityQueue := heap_Push (priorityQueue st) \<lparr>Value = neighbor, Priority = alt\<rparr>\<rparr>
         else st)"

text \<open>One iteration of the main loop, entered with a non-empty queue.\<close>

definition Dijkstra_iter :: "(Item list \<Rightarrow> nat) \<Rightarrow> Graph \<Rightarrow> dstate \<Rightarrow> dstate" where
  "Dijkstra_iter sel graph st =
     (let popped = heap_Pop sel (priorityQueue st);
          current = Value (fst popped);
          st1 = st\<lparr>priorityQueue := snd popped\<rparr>
      in if current \<in> visited st1 then st1
         else foldl (relax current) (st1\<lparr>visited := insert current (visited st1)\<rparr>)
                (neighbors_of graph current))"

text \<open>
  Why the loop ends: every iteration removes one item from the queue, and items are
  added only while a node is visited for the first time, at most one for each of its
  neighbour entries.
\<close>

definition pending :: "string set \<Rightarrow> (string \<times> (string \<times> real) list) list \<Rightarrow> nat" where
  "pending V al = sum_list (map (\<lambda>e. if fst e \<in> V then 0 else Suc (length (snd e))) al)"

definition loop_measure :: "Graph \<Rightarrow> dstate \<Rightarrow> nat" where
  "loop_measure graph st = length (priorityQueue st) + pending (visited st) (Neighbors graph)"

lemma min_positions_nonempty: "pq \<noteq> [] \<Longrightarrow> min_positions pq \<noteq> []"
proof -
  assume ne: "pq \<noteq> []"
  define m where "m = Min (Priority ` set pq)"
  have "m \<in> Priority ` set pq" unfolding m_def using ne by (intro Min_in) auto
  then obtain i where i: "i < length pq" "Priority (pq ! i) = m"
    by (auto simp: in_set_conv_nth)
  have "\<forall>j<length pq. m \<le> Priority (pq ! j)"
    unfolding m_def by (auto intro!: Min_le)
  with i have "i \<in> set (min_positions pq)"
    by (auto simp: min_positions_def list_all_iff Less_def not_less)
  then show ?thesis by auto
qed

lemma heap_Pop_pos:
  assumes "pq \<noteq> []"
  shows "\<exists>i<length pq. heap_Pop sel pq = (pq ! i, take i pq @ drop (Suc i) pq) \<and>
           (\<forall>j<length pq. Priority (pq ! i) \<le> Priority (pq ! j))"
proof -
  let ?c = "min_positions pq"
  let ?i = "?c ! (sel pq mod length ?c)"
  have "?c \<noteq> []" using assms by (rule min_positions_nonempty)
  then have "?i \<in> set ?c" by simp
  then have "?i < length pq" "\<forall>j<length pq. Priority (pq ! ?i) \<le> Priority (pq ! j)"
    by (auto simp: min_positions_def list_all_iff Less_def not_less)
  then show ?thesis by (auto simp: heap_Pop_def Let_def)
qed

lemma heap_Pop_mset:
  assumes "pq \<noteq> []"
  shows "mset pq = add_mset (fst (heap_Pop sel pq)) (mset (snd (heap_Pop sel pq)))"
proof -
  from heap_Pop_pos[OF assms, of sel] obtain i where i: "i < length pq"
    "heap_Pop sel pq = (pq ! i, take i pq @ drop (Suc i) pq)" by blast
  have "pq = take i pq @ pq ! i # drop (Suc i) pq" using i(1) by (simp add: id_take_nth_drop)
  then have "mset pq = mset (take i pq @ pq ! i # drop (Suc i) pq)" by simp
  then show ?thesis using i(2) by simp
qed

lemma heap_Pop_min:
  assumes "pq \<noteq> []" "x \<in> set pq"
  shows "Priority (fst (heap_Pop sel pq)) \<le> Priority x"
  using heap_Pop_pos[OF assms(1), of sel] assms(2) by (auto simp: in_set_conv_nth)

lemma heap_Pop_length:
  assumes "pq \<noteq> []"
  shows "Suc (length (snd (heap_Pop sel pq))) = length pq"
  using arg_cong[OF heap_Pop_mset[OF assms, of sel], of size] by simp

lemma relax_visited: "visited (relax v st e) = visited st"
  by (simp add: relax_def Let_def)

lemma relax_queue_length: "length (priorityQueue (relax v st e)) \<le> Suc (length (priorityQueue st))"
  by (simp add: relax_def Let_def heap_Push_def)

lemma foldl_relax_visited: "visited (foldl (relax v) st es) = visited st"
  by (induction es arbitrary: st) (simp_all add: relax_visited)

lemma foldl_relax_queue_length:
  "length (priorityQueue (foldl (relax v) st es)) \<le> length (priorityQueue st) + length es"
proof (induction es arbitrary: st)
  case Nil then show ?case by simp
next
  case (Cons e es)
  have "length (priorityQueue (foldl (relax v) (relax v st e) es)) \<le> length (priorityQueue (relax v st e)) + length es"
    by (rule Cons.IH)
  also have "\<dots> \<le> Suc (length (priorityQueue st)) + length es"
    using relax_queue_length[of v st e] by simp
  finally show ?case by simp
qed


lemma pending_insert_le: "pending (insert v V) al \<le> pending V al"
  by (induction al) (auto simp: pending_def)

lemma pending_insert_less:
  "v \<notin> V \<Longrightarrow> map_of al v = Some nb \<Longrightarrow> pending (insert v V) al + Suc (length nb) \<le> pending V al"
proof (induction al)
  case Nil then show ?case by simp
next
  case (Cons e al)
  show ?case
  proof (cases "fst e = v")
    case True
    then have "snd e = nb" using Cons.prems(2) by (cases e) auto
    then show ?thesis using True Cons.prems(1) pending_insert_le[of v V al]
      by (simp add: pending_def)
  next
    case False
    then have "map_of al v = Some nb" using Cons.prems(2) by (cases e) auto
    from Cons.IH[OF Cons.prems(1) this] show ?thesis using False
      by (simp add: pending_def)
  qed
qed

lemma Dijkstra_iter_measure:
  assumes "priorityQueue st \<noteq> []"
  shows "loop_measure g (Dijkstra_iter sel g st) < loop_measure g st"
proof -
  let ?p = "heap_Pop sel (priorityQueue st)"
  let ?v = "Value (fst ?p)"
  let ?st1 = "st\<lparr>priorityQueue := snd ?p\<rparr>"
  have len: "Suc (length (snd ?p)) = length (priorityQueue st)"
    using assms by (rule heap_Pop_length)
  have lm: "loop_measure g s = length (priorityQueue s) + pending (visited s) (Neighbors g)" for s
    by (simp add: loop_measure_def)
  show ?thesis
  proof (cases "?v \<in> visited st")
    case True
    then have "Dijkstra_iter sel g st = ?st1" by (simp add: Dijkstra_iter_def Let_def)
    then show ?thesis using len by (simp add: lm)
  next
    case False
    let ?st2 = "?st1\<lparr>visited := insert ?v (visited ?st1)\<rparr>"
    let ?r = "foldl (relax ?v) ?st2 (neighbors_of g ?v)"
    have eq: "Dijkstra_iter sel g st = ?r" using False by (simp add: Dijkstra_iter_def Let_def)
    have q: "length (priorityQueue ?r) \<le> length (snd ?p) + length (neighbors_of g ?v)"
      using foldl_relax_queue_length[of ?v ?st2 "neighbors_of g ?v"] by simp
    have vis: "visited ?r = insert ?v (visited st)" by (simp add: foldl_relax_visited)
    have "pending (insert ?v (visited st)) (Neighbors g) + length (neighbors_of g ?v) \<le> pending (visited st) (Neighbors g)"
    proof (cases "map_of (Neighbors g) ?v")
      case None
      then show ?thesis using pending_insert_le[of ?v "visited st" "Neighbors g"] by (simp add: neighbors_of_def)
    next
      case (Some nb)
      then show ?thesis using pending_insert_less[OF False Some] by (simp add: neighbors_of_def)
    qed
    then show ?thesis using q len unfolding eq lm vis by linarith
  qed
qed


function Dijkstra_loop :: "(Item list \<Rightarrow> nat) \<Rightarrow> Graph \<Rightarrow> dstate \<Rightarrow> dstate" where
  "Dijkstra_loop sel graph st =
     (if priorityQueue st \<noteq> [] then Dijkstra_loop sel graph (Dijkstra_iter sel graph st) else st)"
  by pat_completeness auto
termination
  by (relation "measure (\<lambda>(sel, graph, st). loop_measure graph st)")
     (auto simp: Dijkstra_iter_measure)

declare Dijkstra_loop.simps [simp del]

definition init_distances :: "Graph \<Rightarrow> string \<rightharpoonup> xreal" where
  "init_distances graph = foldl (\<lambda>d e. d(fst e \<mapsto> PInf)) Map.empty (Nodes graph)"

definition Dijkstra ::
  "(Item list \<Rightarrow> nat) \<Rightarrow> Graph option \<Rightarrow> string \<Rightarrow>
     error + (string \<rightharpoonup> xreal) \<times> (string \<rightharpoonup> string)" where
  "Dijkstra sel graph start =
     (case graph of
        None \<Rightarrow> Inl GraphIsNil
      | Some g \<Rightarrow>
          if map_of (Nodes g) start = None then Inl UnknownStartNode
          else
            let st = Dijkstra_loop sel g
                       \<lparr>distances = (init_distances g)(start \<mapsto> Fin 0),
                        previous = Map.empty,
                        priorityQueue = heap_Push [] \<lparr>Value = start, Priority = Fin 0\<rparr>,
                        visited = {}\<rparr>
            in Inr (distances st, previous st))"

text \<open>
  The loop of \<^verbatim>\<open>ReconstructPath\<close> follows the predecessor links and has no bound of its
  own: on a cyclic map it runs forever, which is the value \<open>None\<close>.
\<close>

partial_function (option) ReconstructPath_loop ::
  "(string \<rightharpoonup> string) \<Rightarrow> string \<Rightarrow> string \<Rightarrow> string list \<Rightarrow> (error + string list) option" where
  "ReconstructPath_loop prev start current path =
     (if current \<noteq> start
      then (case prev current of
              None \<Rightarrow> Some (Inl NoPathFound)
            | Some p \<Rightarrow> ReconstructPath_loop prev start p (current # path))
      else Some (Inr (start # path)))"

definition ReconstructPath ::
  "(string \<rightharpoonup> string) \<Rightarrow> string \<Rightarrow> string \<Rightarrow> (error + string list) option" where
  "ReconstructPath prev start target = ReconstructPath_loop prev start target []"

section \<open>Network initialization\<close>

text \<open>The loops of \<^verbatim>\<open>BuildNetworkGraph\<close> that add one edge for each hub of a list.\<close>

fun connect_hubs :: "Graph \<Rightarrow> string \<Rightarrow> Point \<Rightarrow> Hub list \<Rightarrow> error + Graph" where
  "connect_hubs graph ident loc [] = Inr graph"
| "connect_hubs graph ident loc (h # hs) =
     (case AddEdge graph ident (hub_ID h) (CalculateDistance loc (hub_Location h)) of
        Inl err \<Rightarrow> Inl err
      | Inr graph' \<Rightarrow> connect_hubs graph' ident loc hs)"

text \<open>The loop \<^verbatim>\<open>for i := 1; i < len(nearestHubs) && i <= 2; i++\<close>.\<close>

function connect_hub_neighbors :: "Graph \<Rightarrow> Hub \<Rightarrow> Hub list \<Rightarrow> nat \<Rightarrow> error + Graph" where
  "connect_hub_neighbors graph h nearestHubs i =
     (if i < length nearestHubs \<and> i \<le> 2
      then (let neighborHub = nearestHubs ! i
            in case AddEdge graph (hub_ID h) (hub_ID neighborHub)
                      (CalculateDistance (hub_Location h) (hub_Location neighborHub)) of
                 Inl err \<Rightarrow> Inl err
               | Inr graph' \<Rightarrow> connect_hub_neighbors graph' h nearestHubs (i + 1))
      else Inr graph)"
  by pat_completeness auto
termination
  by (relation "measure (\<lambda>(graph, h, nearestHubs, i). 3 - i)") auto

declare connect_hub_neighbors.simps [simp del]

fun connect_sites :: "Graph \<Rightarrow> TelecomSite list \<Rightarrow> Hub list \<Rightarrow> error + Graph" where
  "connect_sites graph [] hubs = Inr graph"
| "connect_sites graph (site # sites) hubs =
     (case FindNearestHubs (site_Location site) hubs 1 of
        Inl err \<Rightarrow> Inl (BuildError (site_ID site) err)
      | Inr nearestHubs \<Rightarrow>
          (case connect_hubs graph (site_ID site) (site_Location site) nearestHubs of
             Inl err \<Rightarrow> Inl err
           | Inr graph' \<Rightarrow> connect_sites graph' sites hubs))"

fun connect_all_hubs :: "Graph \<Rightarrow> Hub list \<Rightarrow> Hub list \<Rightarrow> error + Graph" where
  "connect_all_hubs graph [] hubs = Inr graph"
| "connect_all_hubs graph (h # hs) hubs =
     (case FindNearestHubs (hub_Location h) hubs 3 of
        Inl err \<Rightarrow> Inl (BuildError (hub_ID h) err)
      | Inr nearestHubs \<Rightarrow>
          (case connect_hub_neighbors graph h nearestHubs 1 of
             Inl err \<Rightarrow> Inl err
           | Inr graph' \<Rightarrow> connect_all_hubs graph' hs hubs))"

fun connect_centers :: "Graph \<Rightarrow> EmergencyCenter list \<Rightarrow> Hub list \<Rightarrow> error + Graph" where
  "connect_centers graph [] hubs = Inr graph"
| "connect_centers graph (ec # ecs) hubs =
     (case FindNearestHubs (ec_Location ec) hubs 5 of
        Inl err \<Rightarrow> Inl (BuildError (ec_ID ec) err)
      | Inr nearestHubs \<Rightarrow>
          (case connect_hubs graph (ec_ID ec) (ec_Location ec) nearestHubs of
             Inl err \<Rightarrow> Inl err
           | Inr graph' \<Rightarrow> connect_centers graph' ecs hubs))"

definition BuildNetworkGraph ::
  "TelecomSite list \<Rightarrow> Hub list \<Rightarrow> EmergencyCenter list \<Rightarrow> error + Graph" where
  "BuildNetworkGraph telecomSites hubs emergencyCenters =
     (case connect_sites NewGraph telecomSites hubs of
        Inl err \<Rightarrow> Inl err
      | Inr g1 \<Rightarrow>
          (case connect_all_hubs g1 hubs hubs of
             Inl err \<Rightarrow> Inl err
           | Inr g2 \<Rightarrow> connect_centers g2 emergencyCenters hubs))"

section \<open>Weights, reachability and the loop invariants\<close>

text \<open>
  Every weight stored in the graph is non-negative; and the nodes that can be reached
  from \<open>s\<close> along the entries of the neighbour maps.
\<close>

definition nonneg_weights :: "Graph \<Rightarrow> bool" where
  "nonneg_weights g = (\<forall>nb\<in>snd ` set (Neighbors g). \<forall>e\<in>set nb. 0 \<le> snd e)"

inductive reachable :: "Graph \<Rightarrow> string \<Rightarrow> string \<Rightarrow> bool" for g :: Graph and s :: string where
  reachable_start: "reachable g s s"
| reachable_step: "reachable g s v \<Longrightarrow> e \<in> set (neighbors_of g v) \<Longrightarrow> reachable g s (fst e)"

text \<open>
  The invariants of the main loop of \<^verbatim>\<open>Dijkstra\<close>, one definition each:
  the distance map has an entry for exactly the nodes (\<open>I_dom\<close>); the start is at
  distance 0 (\<open>I_start\<close>); no distance is negative (\<open>I_nonneg\<close>); a node at a finite
  distance can be reached (\<open>I_reach\<close>); a predecessor entry belongs to a node other than
  the start, at a finite distance, and names a visited node (\<open>I_prev\<close>); a queued item
  is for a node of the map, is not below the node's distance and is finite (\<open>I_queue\<close>);
  an unvisited node at a finite distance has a queued item with that distance
  (\<open>I_front\<close>); no visited node is farther than a queued item (\<open>I_settled\<close>); the edges
  out of visited nodes are relaxed, except those of the current node still to come
  (\<open>I_relaxed\<close>); the visited nodes can be numbered so that predecessors come first
  (\<open>I_rank\<close>); and, inside the loop over the neighbours, the current node is visited, at
  a finite distance, and farthest among the visited ones (\<open>I_cur\<close>).
\<close>

definition I_dom :: "Graph \<Rightarrow> dstate \<Rightarrow> bool" where
  "I_dom g st = (\<forall>v. (distances st v \<noteq> None) = has_node g v)"

definition I_start :: "string \<Rightarrow> dstate \<Rightarrow> bool" where
  "I_start s st = (distances st s = Some (Fin 0))"

definition I_nonneg :: "dstate \<Rightarrow> bool" where
  "I_nonneg st = (\<forall>v x. distances st v = Some x \<longrightarrow> Fin 0 \<le> x)"

definition I_reach :: "Graph \<Rightarrow> string \<Rightarrow> dstate \<Rightarrow> bool" where
  "I_reach g s st = (\<forall>v x. distances st v = Some (Fin x) \<longrightarrow> reachable g s v)"

definition I_prev :: "string \<Rightarrow> dstate \<Rightarrow> bool" where
  "I_prev s st =
     (\<forall>v u. previous st v = Some u \<longrightarrow>
        v \<noteq> s \<and> (\<exists>x. distances st v = Some (Fin x)) \<and> u \<in> visited st)"

definition I_queue :: "dstate \<Rightarrow> bool" where
  "I_queue st =
     (\<forall>it\<in>set (priorityQueue st).
        distances st (Value it) \<noteq> None \<and>
        dist_at (distances st) (Value it) \<le> Priority it \<and> Priority it \<noteq> PInf)"

definition I_front :: "dstate \<Rightarrow> bool" where
  "I_front st =
     (\<forall>v x. v \<notin> visited st \<and> distances st v = Some (Fin x) \<longrightarrow>
        \<lparr>Value = v, Priority = Fin x\<rparr> \<in> set (priorityQueue st))"

definition I_settled :: "dstate \<Rightarrow> bool" where
  "I_settled st =
     (\<forall>v\<in>visited st. \<forall>it\<in>set (priorityQueue st). dist_at (distances st) v \<le> Priority it)"

definition I_relaxed :: "Graph \<Rightarrow> dstate \<Rightarrow> string \<Rightarrow> (string \<times> real) list \<Rightarrow> bool" where
  "I_relaxed g st cur pend =
     (\<forall>v\<in>visited st. \<forall>e\<in>set (neighbors_of g v).
        (v = cur \<and> e \<in> set pend) \<or>
        dist_at (distances st) (fst e) \<le> xadd (dist_at (distances st) v) (snd e))"

definition I_rank :: "dstate \<Rightarrow> bool" where
  "I_rank st =
     (\<exists>(rank :: string \<Rightarrow> nat) n.
        (\<forall>v\<in>visited st. rank v < n) \<and>
        (\<forall>v u. previous st v = Some u \<longrightarrow> v \<in> visited st \<longrightarrow> rank u < rank v))"

definition I_cur :: "Graph \<Rightarrow> dstate \<Rightarrow> string \<Rightarrow> (string \<times> real) list \<Rightarrow> bool" where
  "I_cur g st cur pend =
     (cur \<in> visited st \<and>
      (\<forall>u\<in>visited st. dist_at (distances st) u \<le> dist_at (distances st) cur) \<and>
      set pend \<subseteq> set (neighbors_of g cur) \<and>
      (\<exists>x. distances st cur = Some (Fin x)))"

definition core_inv :: "Graph \<Rightarrow> string \<Rightarrow> dstate \<Rightarrow> bool" where
  "core_inv g s st =
     (I_dom g st \<and> I_start s st \<and> I_nonneg st \<and> I_reach g s st \<and> I_prev s st \<and>
      I_queue st \<and> I_front st \<and> I_settled st \<and> I_rank st)"

definition outer_inv :: "Graph \<Rightarrow> string \<Rightarrow> dstate \<Rightarrow> bool" where
  "outer_inv g s st = (core_inv g s st \<and> I_relaxed g st [] [])"

definition inner_inv :: "Graph \<Rightarrow> string \<Rightarrow> dstate \<Rightarrow> string \<Rightarrow> (string \<times> real) list \<Rightarrow> bool" where
  "inner_inv g s st cur pend = (core_inv g s st \<and> I_relaxed g st cur pend \<and> I_cur g st cur pend)"

section \<open>Unfolding the loops one iteration at a time\<close>

lemma sort_inner_step:
  "j < length ds \<Longrightarrow>
   sort_inner i j ds =
     sort_inner i (Suc j)
       (if distance (ds ! j) < distance (ds ! i) then ds[i := ds ! j, j := ds ! i] else ds)"
  by (subst sort_inner.simps) simp

lemma sort_inner_stop: "length ds \<le> j \<Longrightarrow> sort_inner i j ds = ds"
  by (subst sort_inner.simps) simp

lemma sort_outer_step:
  "Suc i < length ds \<Longrightarrow> sort_outer i ds = sort_outer (Suc i) (sort_inner i (Suc i) ds)"
  by (subst sort_outer.simps) simp

lemma sort_outer_stop: "length ds \<le> Suc i \<Longrightarrow> sort_outer i ds = ds"
  by (subst sort_outer.simps) simp

lemma connect_hub_neighbors_step:
  "i < length nearestHubs \<Longrightarrow> i \<le> 2 \<Longrightarrow>
   connect_hub_neighbors graph h nearestHubs i =
     (case AddEdge graph (hub_ID h) (hub_ID (nearestHubs ! i))
             (CalculateDistance (hub_Location h) (hub_Location (nearestHubs ! i))) of
        Inl err \<Rightarrow> Inl err
      | Inr graph' \<Rightarrow> connect_hub_neighbors graph' h nearestHubs (i + 1))"
  by (subst connect_hub_neighbors.simps) (simp add: Let_def)

lemma connect_hub_neighbors_stop:
  "length nearestHubs \<le> i \<or> 2 < i \<Longrightarrow> connect_hub_neighbors graph h nearestHubs i = Inr graph"
  by (subst connect_hub_neighbors.simps) auto

lemma Dijkstra_loop_step:
  "priorityQueue st \<noteq> [] \<Longrightarrow>
   Dijkstra_loop sel graph st = Dijkstra_loop sel graph (Dijkstra_iter sel graph st)"
  by (subst Dijkstra_loop.simps) simp

lemma Dijkstra_loop_stop: "priorityQueue st = [] \<Longrightarrow> Dijkstra_loop sel graph st = st"
  by (subst Dijkstra_loop.simps) simp

lemma ReconstructPath_loop_found:
  "ReconstructPath_loop prev start start path = Some (Inr (start # path))"
  by (subst ReconstructPath_loop.simps) simp

lemma ReconstructPath_loop_missing:
  "current \<noteq> start \<Longrightarrow> prev current = None \<Longrightarrow>
   ReconstructPath_loop prev start current path = Some (Inl NoPathFound)"
  by (subst ReconstructPath_loop.simps) simp

lemma ReconstructPath_loop_step:
  "current \<noteq> start \<Longrightarrow> prev current = Some p \<Longrightarrow>
   ReconstructPath_loop prev start current path =
     ReconstructPath_loop prev start p (current # path)"
  by (subst ReconstructPath_loop.simps) simp

lemma sqrt_25: "sqrt 25 = 5"
  by (rule real_sqrt_unique) simp_all

section \<open>Nearest emergency center\<close>

text \<open>
  C1. On an empty list of centers \<^verbatim>\<open>FindNearestEmergencyCenter\<close> does not fail: for a
  site that passes validation it returns the zero-valued center and no error.
\<close>

theorem FindNearestEmergencyCenter_empty_list:
  "FindNearestEmergencyCenter \<lparr>site_ID = ''TS1'', site_Location = \<lparr>X = 10, Y = 20\<rparr>\<rparr> [] =
     Inr \<lparr>ec_ID = [], ec_Location = \<lparr>X = 0, Y = 0\<rparr>\<rparr>"
  by (simp add: FindNearestEmergencyCenter_def Validate_site_def zero_Point_def
      zero_EmergencyCenter_def)

text \<open>
  What the loop does find: for a site that passes validation and a list with a center
  nearer than \<open>MaxFloat64\<close>, the initial minimum, the result is the first center of
  least distance.
\<close>

lemma nearest_loop_none:
  "\<forall>c\<in>set cs. \<not> CalculateDistance p (ec_Location c) < md \<Longrightarrow> nearest_loop p cs nc md = nc"
  by (induction cs arbitrary: nc md) (simp_all add: Let_def)

lemma nearest_loop_first_min:
  assumes "\<exists>c\<in>set cs. CalculateDistance p (ec_Location c) < md"
  shows "\<exists>i<length cs. nearest_loop p cs nc md = cs ! i \<and>
           CalculateDistance p (ec_Location (cs ! i)) < md \<and>
           (\<forall>c\<in>set cs. CalculateDistance p (ec_Location (cs ! i)) \<le> CalculateDistance p (ec_Location c)) \<and>
           (\<forall>j<i. CalculateDistance p (ec_Location (cs ! i)) < CalculateDistance p (ec_Location (cs ! j)))"
  using assms
proof (induction cs arbitrary: nc md)
  case Nil
  then show ?case by simp
next
  case (Cons c cs)
  let ?d = "\<lambda>c. CalculateDistance p (ec_Location c)"
  show ?case
  proof (cases "?d c < md")
    case True
    then have step: "nearest_loop p (c # cs) nc md = nearest_loop p cs c (?d c)"
      by (simp add: Let_def)
    show ?thesis
    proof (cases "\<exists>c'\<in>set cs. ?d c' < ?d c")
      case ex: True
      from Cons.IH[OF ex, of c] obtain i where i: "i < length cs"
        "nearest_loop p cs c (?d c) = cs ! i" "?d (cs ! i) < ?d c"
        "\<forall>c'\<in>set cs. ?d (cs ! i) \<le> ?d c'" "\<forall>j<i. ?d (cs ! i) < ?d (cs ! j)"
        by blast
      have "\<forall>j<Suc i. ?d (cs ! i) < ?d ((c # cs) ! j)"
      proof (intro allI impI)
        fix j assume "j < Suc i"
        then show "?d (cs ! i) < ?d ((c # cs) ! j)" using i(3,5) by (cases j) simp_all
      qed
      moreover have "?d (cs ! i) < md" using i(3) True by simp
      ultimately show ?thesis using i step
        by (intro exI[of _ "Suc i"]) auto
    next
      case nex: False
      then have "nearest_loop p cs c (?d c) = c" by (intro nearest_loop_none) simp
      moreover have "\<forall>c'\<in>set cs. ?d c \<le> ?d c'" using nex by (simp add: not_less)
      ultimately show ?thesis using step True by (intro exI[of _ 0]) simp
    qed
  next
    case False
    then have step: "nearest_loop p (c # cs) nc md = nearest_loop p cs nc md"
      by (simp add: Let_def)
    from Cons.prems False have ex: "\<exists>c'\<in>set cs. ?d c' < md" by auto
    from Cons.IH[OF ex, of nc] obtain i where i: "i < length cs"
      "nearest_loop p cs nc md = cs ! i" "?d (cs ! i) < md"
      "\<forall>c'\<in>set cs. ?d (cs ! i) \<le> ?d c'" "\<forall>j<i. ?d (cs ! i) < ?d (cs ! j)"
      by blast
    have lt: "?d (cs ! i) < ?d c" using i(3) False by simp
    have "\<forall>j<Suc i. ?d (cs ! i) < ?d ((c # cs) ! j)"
    proof (intro allI impI)
      fix j assume "j < Suc i"
      then show "?d (cs ! i) < ?d ((c # cs) ! j)" using lt i(5) by (cases j) simp_all
    qed
    then show ?thesis using i step lt
      by (intro exI[of _ "Suc i"]) auto
  qed
qed

theorem FindNearestEmergencyCenter_nearest:
  assumes "Validate_site site = None"
    and "\<exists>c\<in>set centers. center_distance site c < MaxFloat64"
  shows "\<exists>i<length centers.
           FindNearestEmergencyCenter site centers = Inr (centers ! i) \<and>
           (\<forall>c\<in>set centers. center_distance site (centers ! i) \<le> center_distance site c) \<and>
           (\<forall>j<i. center_distance site (centers ! i) < center_distance site (centers ! j))"
  using nearest_loop_first_min[of centers "site_Location site" MaxFloat64 zero_EmergencyCenter]
    assms
  unfolding center_distance_def FindNearestEmergencyCenter_def by auto

lemma MaxFloat64_big: "5 < MaxFloat64"
proof -
  have "(2::real) ^ 3 \<le> 2 ^ 1023" by (rule power_increasing) simp_all
  then have "(8::real) \<le> 2 ^ 1023" by simp
  moreover have "(1::real) \<le> 2 - 1 / 2 ^ 52" by simp
  ultimately have "1 * (8::real) \<le> (2 - 1 / 2 ^ 52) * 2 ^ 1023"
    by (intro mult_mono) simp_all
  then show ?thesis by (simp add: MaxFloat64_def)
qed

theorem FindNearestEmergencyCenter_nearest_witness:
  "Validate_site \<lparr>site_ID = ''TS1'', site_Location = \<lparr>X = 1, Y = 1\<rparr>\<rparr> = None \<and>
   center_distance \<lparr>site_ID = ''TS1'', site_Location = \<lparr>X = 1, Y = 1\<rparr>\<rparr>
      \<lparr>ec_ID = ''EC1'', ec_Location = \<lparr>X = 4, Y = 5\<rparr>\<rparr> < MaxFloat64 \<and>
   FindNearestEmergencyCenter \<lparr>site_ID = ''TS1'', site_Location = \<lparr>X = 1, Y = 1\<rparr>\<rparr>
      [\<lparr>ec_ID = ''EC1'', ec_Location = \<lparr>X = 4, Y = 5\<rparr>\<rparr>]
    = Inr \<lparr>ec_ID = ''EC1'', ec_Location = \<lparr>X = 4, Y = 5\<rparr>\<rparr>"
proof -
  let ?s = "\<lparr>site_ID = ''TS1'', site_Location = \<lparr>X = 1, Y = 1\<rparr>\<rparr>"
  let ?c = "\<lparr>ec_ID = ''EC1'', ec_Location = \<lparr>X = 4, Y = 5\<rparr>\<rparr>"
  have h1: "Validate_site ?s = None" by (simp add: Validate_site_def zero_Point_def)
  have "center_distance ?s ?c = 5"
    by (simp add: center_distance_def CalculateDistance_def sqrt_25)
  then have h2: "center_distance ?s ?c < MaxFloat64" using MaxFloat64_big by simp
  then have h3: "\<exists>c\<in>set [?c]. center_distance ?s c < MaxFloat64" by simp
  from FindNearestEmergencyCenter_nearest[OF h1 h3]
  have "FindNearestEmergencyCenter ?s [?c] = Inr ?c" by auto
  with h1 h2 show ?thesis by blast
qed

section \<open>Nearest hubs: the failure conditions\<close>

text \<open>
  C4. \<^verbatim>\<open>FindNearestHubs\<close> fails with \<open>InvalidCount\<close> when \<open>N \<le> 0\<close> and with
  \<open>InsufficientCandidates\<close> when \<open>N\<close> is positive and the list has fewer than \<open>N\<close> hubs;
  a failure returns no list, and in every other case a list is returned.
\<close>

theorem FindNearestHubs_failures:
  "(N \<le> 0 \<longrightarrow> FindNearestHubs point hubs N = Inl InvalidCount) \<and>
   (0 < N \<and> int (length hubs) < N \<longrightarrow> FindNearestHubs point hubs N = Inl InsufficientCandidates) \<and>
   (0 < N \<and> N \<le> int (length hubs) \<longrightarrow> (\<exists>res. FindNearestHubs point hubs N = Inr res)) \<and>
   (\<forall>err. FindNearestHubs point hubs N = Inl err \<longrightarrow>
      (err = InvalidCount \<and> N \<le> 0) \<or> (err = InsufficientCandidates \<and> int (length hubs) < N))"
  by (auto simp: FindNearestHubs_def Let_def)

theorem FindNearestHubs_failures_witness:
  "FindNearestHubs \<lparr>X = 1, Y = 2\<rparr> [\<lparr>hub_ID = ''H1'', hub_Location = \<lparr>X = 3, Y = 4\<rparr>\<rparr>] 0
     = Inl InvalidCount \<and>
   FindNearestHubs \<lparr>X = 1, Y = 2\<rparr> [\<lparr>hub_ID = ''H1'', hub_Location = \<lparr>X = 3, Y = 4\<rparr>\<rparr>] 2
     = Inl InsufficientCandidates \<and>
   (\<exists>res. FindNearestHubs \<lparr>X = 1, Y = 2\<rparr> [\<lparr>hub_ID = ''H1'', hub_Location = \<lparr>X = 3, Y = 4\<rparr>\<rparr>] 1
     = Inr res)"
  using FindNearestHubs_failures [of 0 "\<lparr>X = 1, Y = 2\<rparr>" "[\<lparr>hub_ID = ''H1'', hub_Location = \<lparr>X = 3, Y = 4\<rparr>\<rparr>]"]
    FindNearestHubs_failures [of 2 "\<lparr>X = 1, Y = 2\<rparr>" "[\<lparr>hub_ID = ''H1'', hub_Location = \<lparr>X = 3, Y = 4\<rparr>\<rparr>]"]
    FindNearestHubs_failures [of 1 "\<lparr>X = 1, Y = 2\<rparr>" "[\<lparr>hub_ID = ''H1'', hub_Location = \<lparr>X = 3, Y = 4\<rparr>\<rparr>]"]
  by simp

section \<open>Path reconstruction from a node to itself\<close>

text \<open>
  C8. \<^verbatim>\<open>ReconstructPath(previous, t, t)\<close> returns the one-element path \<open>[t]\<close>, whatever the
  predecessor map holds.
\<close>

theorem ReconstructPath_same_node: "ReconstructPath prev t t = Some (Inr [t])"
  by (simp add: ReconstructPath_def ReconstructPath_loop_found)

section \<open>Hubs at one coordinate\<close>

text \<open>
  C2. \<^verbatim>\<open>BuildNetworkGraph\<close> skips the first of the three nearest hubs, whichever hub that
  is. With two hubs at one coordinate the hub that comes second in the list finds the
  other one first and itself second: the graph gets an edge from \<open>H2\<close> to \<open>H2\<close>.
\<close>

theorem BuildNetworkGraph_self_loop:
  "BuildNetworkGraph []
     [\<lparr>hub_ID = ''H1'', hub_Location = \<lparr>X = 1, Y = 1\<rparr>\<rparr>,
      \<lparr>hub_ID = ''H2'', hub_Location = \<lparr>X = 1, Y = 1\<rparr>\<rparr>,
      \<lparr>hub_ID = ''H3'', hub_Location = \<lparr>X = 4, Y = 5\<rparr>\<rparr>] []
   = Inr \<lparr>Nodes = [(''H1'', True), (''H2'', True), (''H3'', True)],
          Neighbors =
            [(''H1'', [(''H2'', 0), (''H3'', 5)]),
             (''H2'', [(''H1'', 0), (''H2'', 0), (''H3'', 5)]),
             (''H3'', [(''H1'', 5), (''H2'', 5)])]\<rparr> \<and>
   weight_of \<lparr>Nodes = [(''H1'', True), (''H2'', True), (''H3'', True)],
          Neighbors =
            [(''H1'', [(''H2'', 0), (''H3'', 5)]),
             (''H2'', [(''H1'', 0), (''H2'', 0), (''H3'', 5)]),
             (''H3'', [(''H1'', 5), (''H2'', 5)])]\<rparr> ''H2'' ''H2'' = Some 0"
proof -
  have d: "CalculateDistance \<lparr>X = 1, Y = 1\<rparr> \<lparr>X = 4, Y = 5\<rparr> = 5"
    "CalculateDistance \<lparr>X = 4, Y = 5\<rparr> \<lparr>X = 1, Y = 1\<rparr> = 5"
    "CalculateDistance p p = 0" for p
    by (simp_all add: CalculateDistance_def sqrt_25)
  have sorted_from_H1:
    "FindNearestHubs \<lparr>X = 1, Y = 1\<rparr>
       [\<lparr>hub_ID = ''H1'', hub_Location = \<lparr>X = 1, Y = 1\<rparr>\<rparr>,
        \<lparr>hub_ID = ''H2'', hub_Location = \<lparr>X = 1, Y = 1\<rparr>\<rparr>,
        \<lparr>hub_ID = ''H3'', hub_Location = \<lparr>X = 4, Y = 5\<rparr>\<rparr>] 3
     = Inr [\<lparr>hub_ID = ''H1'', hub_Location = \<lparr>X = 1, Y = 1\<rparr>\<rparr>,
            \<lparr>hub_ID = ''H2'', hub_Location = \<lparr>X = 1, Y = 1\<rparr>\<rparr>,
            \<lparr>hub_ID = ''H3'', hub_Location = \<lparr>X = 4, Y = 5\<rparr>\<rparr>]"
    unfolding FindNearestHubs_def Let_def
    by (simp add: d sort_outer_step sort_outer_stop sort_inner_step sort_inner_stop)
  have sorted_from_H3:
    "FindNearestHubs \<lparr>X = 4, Y = 5\<rparr>
       [\<lparr>hub_ID = ''H1'', hub_Location = \<lparr>X = 1, Y = 1\<rparr>\<rparr>,
        \<lparr>hub_ID = ''H2'', hub_Location = \<lparr>X = 1, Y = 1\<rparr>\<rparr>,
        \<lparr>hub_ID = ''H3'', hub_Location = \<lparr>X = 4, Y = 5\<rparr>\<rparr>] 3
     = Inr [\<lparr>hub_ID = ''H3'', hub_Location = \<lparr>X = 4, Y = 5\<rparr>\<rparr>,
            \<lparr>hub_ID = ''H2'', hub_Location = \<lparr>X = 1, Y = 1\<rparr>\<rparr>,
            \<lparr>hub_ID = ''H1'', hub_Location = \<lparr>X = 1, Y = 1\<rparr>\<rparr>]"
    unfolding FindNearestHubs_def Let_def
    by (simp add: d sort_outer_step sort_outer_stop sort_inner_step sort_inner_stop)
  show ?thesis
    by (simp add: BuildNetworkGraph_def sorted_from_H1 sorted_from_H3 d NewGraph_def
        connect_hub_neighbors_step connect_hub_neighbors_stop AddEdge_def AddNode_def
        set_weight_def weight_of_def)
qed

section \<open>Invariants of the graph\<close>

lemma AddNode_has_node: "has_node (AddNode g n) a = (a = n \<or> has_node g a)"
  by (auto simp: AddNode_def has_node_def update_conv')

lemma AddNode_has_neighbor_map:
  "has_neighbor_map (AddNode g n) a = ((a = n \<and> \<not> has_node g n) \<or> has_neighbor_map g a)"
  by (auto simp: AddNode_def has_node_def has_neighbor_map_def update_conv')

lemma AddNode_keys_agree: "keys_agree g \<Longrightarrow> keys_agree (AddNode g n)"
  unfolding keys_agree_def by (auto simp: AddNode_has_node AddNode_has_neighbor_map)

lemma AddNode_weight_of: "keys_agree g \<Longrightarrow> weight_of (AddNode g n) a b = weight_of g a b"
proof (cases "has_node g n")
  case True
  then show ?thesis by (auto simp: AddNode_def has_node_def)
next
  case False
  assume "keys_agree g"
  with False have "map_of (Neighbors g) n = None"
    by (simp add: keys_agree_def has_neighbor_map_def)
  then show ?thesis using False
    by (simp add: AddNode_def has_node_def weight_of_def update_conv')
qed

lemma AddNode_symmetric: "keys_agree g \<Longrightarrow> symmetric g \<Longrightarrow> symmetric (AddNode g n)"
  unfolding symmetric_def by (simp add: AddNode_weight_of)

lemma AddNode_neighbors_are_nodes:
  "keys_agree g \<Longrightarrow> neighbors_are_nodes g \<Longrightarrow> neighbors_are_nodes (AddNode g n)"
  unfolding neighbors_are_nodes_def by (simp add: AddNode_weight_of AddNode_has_node)

lemma set_weight_ok:
  assumes "has_neighbor_map g a"
  shows "\<exists>g'. set_weight g a b w = Inr g' \<and> Nodes g' = Nodes g \<and>
           (\<forall>x. has_neighbor_map g' x = has_neighbor_map g x) \<and>
           (\<forall>x y. weight_of g' x y = (if x = a \<and> y = b then Some w else weight_of g x y))"
  using assms
  by (auto simp: set_weight_def weight_of_def has_neighbor_map_def update_conv' split: option.splits)

lemma AddEdge_ok:
  assumes k: "keys_agree g" and s: "symmetric g" and n: "neighbors_are_nodes g"
  shows "\<exists>g'. AddEdge g a b w = Inr g' \<and> keys_agree g' \<and> symmetric g' \<and> neighbors_are_nodes g' \<and>
           weight_of g' a b = Some w \<and> weight_of g' b a = Some w"
proof -
  let ?g2 = "AddNode (AddNode g a) b"
  have k2: "keys_agree ?g2" using k by (simp add: AddNode_keys_agree)
  have w2: "weight_of ?g2 x y = weight_of g x y" for x y
    using k by (simp add: AddNode_weight_of AddNode_keys_agree)
  have n2: "has_node ?g2 x = (x = a \<or> x = b \<or> has_node g x)" for x
    by (auto simp: AddNode_has_node)
  have "has_neighbor_map ?g2 a" using k2 n2[of a] by (simp add: keys_agree_def)
  from set_weight_ok[OF this, of b w] obtain g3 where g3:
    "set_weight ?g2 a b w = Inr g3" "Nodes g3 = Nodes ?g2"
    "\<And>x. has_neighbor_map g3 x = has_neighbor_map ?g2 x"
    "\<And>x y. weight_of g3 x y = (if x = a \<and> y = b then Some w else weight_of ?g2 x y)"
    by blast
  have "has_neighbor_map g3 b" using k2 n2[of b] g3(3) by (simp add: keys_agree_def)
  from set_weight_ok[OF this, of a w] obtain g4 where g4:
    "set_weight g3 b a w = Inr g4" "Nodes g4 = Nodes g3"
    "\<And>x. has_neighbor_map g4 x = has_neighbor_map g3 x"
    "\<And>x y. weight_of g4 x y = (if x = b \<and> y = a then Some w else weight_of g3 x y)"
    by blast
  have e: "AddEdge g a b w = Inr g4" by (simp add: AddEdge_def Let_def g3(1) g4(1))
  define P where "P x y = ((x = a \<and> y = b) \<or> (x = b \<and> y = a))" for x y
  have Psym: "P x y = P y x" for x y unfolding P_def by blast
  have Pab: "P a b" "P b a" unfolding P_def by blast+
  have Pnode: "P x y \<Longrightarrow> y = a \<or> y = b" for x y unfolding P_def by blast
  have w4: "weight_of g4 x y = (if P x y then Some w else weight_of g x y)" for x y
    unfolding g4(4) g3(4) w2 P_def
    by (cases "x = a"; cases "y = b"; cases "x = b"; cases "y = a"; simp)
  have n4: "has_node g4 x = (x = a \<or> x = b \<or> has_node g x)" for x
    using n2[of x] by (simp add: has_node_def g4(2) g3(2))
  have "keys_agree g4" using k2 by (simp add: keys_agree_def g4(3) g3(3) has_node_def g4(2) g3(2))
  moreover have "symmetric g4"
    unfolding symmetric_def
  proof (intro allI)
    fix x y u
    show "(weight_of g4 x y = Some u) = (weight_of g4 y x = Some u)"
    proof (cases "P x y")
      case True
      then have "P y x" using Psym by simp
      with True show ?thesis by (simp add: w4)
    next
      case False
      then have "\<not> P y x" using Psym by simp
      with False show ?thesis using s by (simp add: w4 symmetric_def)
    qed
  qed
  moreover have "neighbors_are_nodes g4"
    unfolding neighbors_are_nodes_def
  proof (intro allI impI)
    fix x y assume h: "weight_of g4 x y \<noteq> None"
    show "has_node g4 y"
    proof (cases "P x y")
      case True
      from Pnode[OF this] show ?thesis by (auto simp: n4)
    next
      case False
      with h have "weight_of g x y \<noteq> None" by (simp add: w4)
      with n have "has_node g y" unfolding neighbors_are_nodes_def by blast
      then show ?thesis by (simp add: n4)
    qed
  qed
  moreover have "weight_of g4 a b = Some w" "weight_of g4 b a = Some w" by (simp_all add: w4 Pab)
  ultimately show ?thesis using e by blast
qed

lemma apply_ops_inv:
  "keys_agree g \<Longrightarrow> symmetric g \<Longrightarrow> neighbors_are_nodes g \<Longrightarrow>
   \<exists>g'. apply_ops g ops = Inr g' \<and> keys_agree g' \<and> symmetric g' \<and> neighbors_are_nodes g'"
proof (induction ops arbitrary: g)
  case Nil
  then show ?case by simp
next
  case (Cons op ops)
  show ?case
  proof (cases op)
    case (OpAddNode n)
    have "\<exists>g'. apply_ops (AddNode g n) ops = Inr g' \<and> keys_agree g' \<and> symmetric g' \<and> neighbors_are_nodes g'"
      using Cons.prems by (intro Cons.IH AddNode_keys_agree AddNode_symmetric AddNode_neighbors_are_nodes)
    then show ?thesis using OpAddNode by simp
  next
    case (OpAddEdge a b w)
    from AddEdge_ok[OF Cons.prems, of a b w] obtain g1 where g1:
      "AddEdge g a b w = Inr g1" "keys_agree g1" "symmetric g1" "neighbors_are_nodes g1" by blast
    from Cons.IH[OF g1(2,3,4)] show ?thesis using OpAddEdge g1(1) by simp
  qed
qed

lemma NewGraph_inv: "keys_agree NewGraph" "symmetric NewGraph" "neighbors_are_nodes NewGraph"
  by (simp_all add: keys_agree_def symmetric_def neighbors_are_nodes_def NewGraph_def weight_of_def
      has_node_def has_neighbor_map_def)

text \<open>
  C5. Every graph built from the empty graph by calls of \<^verbatim>\<open>AddNode\<close> and \<^verbatim>\<open>AddEdge\<close> is
  built without a panic, has symmetric weights, and has every neighbour key among its
  nodes; and a further \<^verbatim>\<open>AddEdge(a, b, w)\<close> on it leaves \<open>w\<close> at \<^verbatim>\<open>Neighbors[a][b]\<close> and at
  \<^verbatim>\<open>Neighbors[b][a]\<close>.
\<close>

theorem graph_invariants:
  "\<exists>g. apply_ops NewGraph ops = Inr g \<and> symmetric g \<and> neighbors_are_nodes g \<and>
     (\<forall>a b w. \<exists>g'. AddEdge g a b w = Inr g' \<and> weight_of g' a b = Some w \<and> weight_of g' b a = Some w)"
proof -
  from apply_ops_inv[OF NewGraph_inv, of ops] obtain g where g:
    "apply_ops NewGraph ops = Inr g" "keys_agree g" "symmetric g" "neighbors_are_nodes g" by blast
  have "\<exists>g'. AddEdge g a b w = Inr g' \<and> weight_of g' a b = Some w \<and> weight_of g' b a = Some w" for a b w
    using AddEdge_ok[OF g(2,3,4), of a b w] by blast
  with g show ?thesis by blast
qed

theorem graph_invariants_witness:
  "apply_ops NewGraph [OpAddNode ''a'', OpAddEdge ''a'' ''b'' 1] =
     Inr \<lparr>Nodes = [(''a'', True), (''b'', True)],
          Neighbors = [(''a'', [(''b'', 1)]), (''b'', [(''a'', 1)])]\<rparr> \<and>
   symmetric \<lparr>Nodes = [(''a'', True), (''b'', True)],
          Neighbors = [(''a'', [(''b'', 1)]), (''b'', [(''a'', 1)])]\<rparr> \<and>
   neighbors_are_nodes \<lparr>Nodes = [(''a'', True), (''b'', True)],
          Neighbors = [(''a'', [(''b'', 1)]), (''b'', [(''a'', 1)])]\<rparr> \<and>
   weight_of \<lparr>Nodes = [(''a'', True), (''b'', True)],
          Neighbors = [(''a'', [(''b'', 1)]), (''b'', [(''a'', 1)])]\<rparr> ''a'' ''b'' = Some 1 \<and>
   has_node \<lparr>Nodes = [(''a'', True), (''b'', True)],
          Neighbors = [(''a'', [(''b'', 1)]), (''b'', [(''a'', 1)])]\<rparr> ''b''"
  using graph_invariants [of "[OpAddNode ''a'', OpAddEdge ''a'' ''b'' 1]"]
  by (simp add: NewGraph_def AddNode_def AddEdge_def set_weight_def weight_of_def has_node_def)


text \<open>A second \<^verbatim>\<open>AddNode\<close> of the same node changes nothing.\<close>

theorem AddNode_idempotent: "AddNode (AddNode g x) x = AddNode g x"
  by (simp add: AddNode_def update_conv')

section \<open>Nearest hubs: the sort\<close>

lemma sort_inner_length: "length (sort_inner i j ds) = length ds"
  by (induction i j ds rule: sort_inner.induct) (subst sort_inner.simps, simp)

lemma sort_inner_mset: "i < j \<Longrightarrow> mset (sort_inner i j ds) = mset ds"
proof (induction i j ds rule: sort_inner.induct)
  case (1 i j ds)
  show ?case
  proof (cases "j < length ds")
    case True
    let ?ds' = "if distance (ds ! j) < distance (ds ! i) then ds[i := ds ! j, j := ds ! i] else ds"
    have "mset (sort_inner i (j + 1) ?ds') = mset ?ds'"
      using "1.IH"[OF True] "1.prems" by simp
    moreover have "mset ?ds' = mset ds"
      using True "1.prems" by (simp add: mset_swap)
    ultimately show ?thesis using True by (simp add: sort_inner_step)
  next
    case False
    then show ?thesis by (simp add: sort_inner_stop)
  qed
qed

lemma sort_inner_take: "i < j \<Longrightarrow> take i (sort_inner i j ds) = take i ds"
proof (induction i j ds rule: sort_inner.induct)
  case (1 i j ds)
  show ?case
  proof (cases "j < length ds")
    case True
    let ?ds' = "if distance (ds ! j) < distance (ds ! i) then ds[i := ds ! j, j := ds ! i] else ds"
    have "take i (sort_inner i (j + 1) ?ds') = take i ?ds'"
      using "1.IH"[OF True] "1.prems" by simp
    moreover have "take i ?ds' = take i ds"
      using "1.prems" by simp
    ultimately show ?thesis using True by (simp add: sort_inner_step)
  next
    case False
    then show ?thesis by (simp add: sort_inner_stop)
  qed
qed

lemma sort_inner_min:
  "i < j \<Longrightarrow> \<forall>k. i < k \<and> k < j \<and> k < length ds \<longrightarrow> distance (ds ! i) \<le> distance (ds ! k) \<Longrightarrow>
   \<forall>k. i < k \<and> k < length ds \<longrightarrow>
     distance (sort_inner i j ds ! i) \<le> distance (sort_inner i j ds ! k)"
proof (induction i j ds rule: sort_inner.induct)
  case (1 i j ds)
  show ?case
  proof (cases "j < length ds")
    case True
    let ?ds' = "if distance (ds ! j) < distance (ds ! i) then ds[i := ds ! j, j := ds ! i] else ds"
    have len: "length ?ds' = length ds" by simp
    have inv: "\<forall>k. i < k \<and> k < j + 1 \<and> k < length ?ds' \<longrightarrow> distance (?ds' ! i) \<le> distance (?ds' ! k)"
    proof (intro allI impI)
      fix k assume "i < k \<and> k < j + 1 \<and> k < length ?ds'"
      then have k: "i < k" "k \<le> j" "k < length ds" by (simp_all split: if_splits)
      have ij: "i < length ds" using "1.prems"(1) True by simp
      show "distance (?ds' ! i) \<le> distance (?ds' ! k)"
      proof (cases "k = j")
        case kj: True
        show ?thesis using kj ij True k(1) by (simp add: nth_list_update)
      next
        case False
        then have "k < j" using k(2) by simp
        then have le: "distance (ds ! i) \<le> distance (ds ! k)" using "1.prems"(2) k by simp
        show ?thesis using le ij k False True by (auto simp: nth_list_update)
      qed
    qed
    have "\<forall>k. i < k \<and> k < length ?ds' \<longrightarrow>
       distance (sort_inner i (j + 1) ?ds' ! i) \<le> distance (sort_inner i (j + 1) ?ds' ! k)"
      using "1.IH"[OF True _ inv] "1.prems"(1) by simp
    then show ?thesis using True by (simp add: sort_inner_step)
  next
    case False
    then show ?thesis using "1.prems" by (simp add: sort_inner_stop)
  qed
qed

lemma sort_inner_drop_mset:
  assumes "i < j"
  shows "mset (drop i (sort_inner i j ds)) = mset (drop i ds)"
proof -
  have "mset (take i (sort_inner i j ds)) + mset (drop i (sort_inner i j ds)) = mset (take i ds) + mset (drop i ds)"
    using sort_inner_mset[OF assms, of ds] by (simp flip: mset_append)
  then show ?thesis using sort_inner_take[OF assms, of ds] by simp
qed

lemma sorted_upto_step:
  assumes inv: "sorted_upto i ds" and i: "Suc i < length ds"
  shows "sorted_upto (Suc i) (sort_inner i (Suc i) ds)"
proof -
  let ?r = "sort_inner i (Suc i) ds"
  have len: "length ?r = length ds" by (rule sort_inner_length)
  have tk: "take i ?r = take i ds" by (simp add: sort_inner_take)
  have dr: "mset (drop i ?r) = mset (drop i ds)" by (simp add: sort_inner_drop_mset)
  then have drs: "set (drop i ?r) = set (drop i ds)" by (rule mset_eq_setD)
  have mn: "\<forall>k. i < k \<and> k < length ds \<longrightarrow> distance (?r ! i) \<le> distance (?r ! k)"
    by (rule sort_inner_min) auto
  have ri: "?r ! i \<in> set (drop i ?r)"
    using i len by (metis Cons_nth_drop_Suc Suc_lessD list.set_intros(1))
  have tks: "take (Suc i) ?r = take i ds @ [?r ! i]"
    using i len tk by (simp add: take_Suc_conv_app_nth)
  have below: "\<forall>x\<in>set (take i ds). distance x \<le> distance (?r ! i)"
    using inv ri drs by (simp add: sorted_upto_def)
  have s: "sorted (map distance (take (Suc i) ?r))"
    using inv below by (simp add: tks sorted_append sorted_upto_def)
  have sub: "set (drop (Suc i) ?r) \<subseteq> set (drop i ?r)"
    by (metis set_drop_subset_set_drop le_SucI order_refl)
  have "\<forall>x\<in>set (take (Suc i) ?r). \<forall>y\<in>set (drop (Suc i) ?r). distance x \<le> distance y"
  proof (intro ballI)
    fix x y assume x: "x \<in> set (take (Suc i) ?r)" and y: "y \<in> set (drop (Suc i) ?r)"
    from x consider "x \<in> set (take i ds)" | "x = ?r ! i" by (auto simp: tks)
    then show "distance x \<le> distance y"
    proof cases
      case 1
      then show ?thesis using inv y sub drs by (auto simp: sorted_upto_def)
    next
      case 2
      from y obtain k where "k < length (drop (Suc i) ?r)" "y = drop (Suc i) ?r ! k"
        by (auto simp: in_set_conv_nth)
      then have "y = ?r ! (Suc i + k)" "Suc i + k < length ds" using len by auto
      then show ?thesis using mn 2 by simp
    qed
  qed
  with s show ?thesis by (simp add: sorted_upto_def)
qed

lemma sort_outer_sorted:
  "sorted_upto i ds \<Longrightarrow> i \<le> length ds \<Longrightarrow>
   sorted (map distance (sort_outer i ds)) \<and> mset (sort_outer i ds) = mset ds"
proof (induction i ds rule: sort_outer.induct)
  case (1 i ds)
  show ?case
  proof (cases "Suc i < length ds")
    case True
    let ?r = "sort_inner i (Suc i) ds"
    have c: "int i < int (length ds) - 1" using True by simp
    have "sorted_upto (i + 1) (sort_inner i (i + 1) ds)"
      using sorted_upto_step[OF "1.prems"(1) True] by simp
    moreover have "i + 1 \<le> length (sort_inner i (i + 1) ds)"
      using True by (simp add: sort_inner_length)
    ultimately have "sorted (map distance (sort_outer (i + 1) (sort_inner i (i + 1) ds))) \<and>
        mset (sort_outer (i + 1) (sort_inner i (i + 1) ds)) = mset (sort_inner i (i + 1) ds)"
      using "1.IH"[OF c] by blast
    then show ?thesis using True by (simp add: sort_outer_step sort_inner_mset)
  next
    case False
    then have stop: "sort_outer i ds = ds" by (simp add: sort_outer_stop)
    have "sorted (map distance ds)"
    proof (cases "i = length ds")
      case True
      then show ?thesis using "1.prems"(1) by (simp add: sorted_upto_def)
    next
      case ne: False
      then have il: "Suc i = length ds" using False "1.prems"(2) by simp
      then have ds: "ds = take i ds @ [ds ! i]"
        by (metis lessI take_Suc_conv_app_nth take_all order_refl)
      have "ds ! i \<in> set (drop i ds)" using il
        by (metis Cons_nth_drop_Suc lessI list.set_intros(1))
      then have "\<forall>x\<in>set (take i ds). distance x \<le> distance (ds ! i)"
        using "1.prems"(1) by (simp add: sorted_upto_def)
      then have "sorted (map distance (take i ds @ [ds ! i]))"
        using "1.prems"(1) by (simp add: sorted_append sorted_upto_def)
      then show ?thesis using ds by simp
    qed
    then show ?thesis using stop by simp
  qed
qed


lemma sort_inner_first_min:
  "i = 0 \<Longrightarrow> 0 < j \<Longrightarrow> length ds = length orig \<Longrightarrow> k < j \<Longrightarrow> k < length orig \<Longrightarrow>
   ds ! 0 = orig ! k \<Longrightarrow>
   \<forall>m<j. m < length orig \<longrightarrow> distance (orig ! k) \<le> distance (orig ! m) \<Longrightarrow>
   \<forall>m<k. distance (orig ! k) < distance (orig ! m) \<Longrightarrow>
   \<forall>m. j \<le> m \<and> m < length orig \<longrightarrow> ds ! m = orig ! m \<Longrightarrow>
   \<exists>k'<length orig. sort_inner i j ds ! 0 = orig ! k' \<and>
      (\<forall>m<length orig. distance (orig ! k') \<le> distance (orig ! m)) \<and>
      (\<forall>m<k'. distance (orig ! k') < distance (orig ! m))"
proof (induction i j ds arbitrary: k rule: sort_inner.induct)
  case (1 i j ds)
  note i0 = "1.prems"(1) and j0 = "1.prems"(2) and len = "1.prems"(3) and kj = "1.prems"(4)
    and kl = "1.prems"(5) and d0 = "1.prems"(6) and mn = "1.prems"(7) and st = "1.prems"(8)
    and tl = "1.prems"(9)
  show ?case
  proof (cases "j < length ds")
    case False
    then have "sort_inner i j ds = ds" by (simp add: sort_inner_stop)
    moreover have "\<forall>m<length orig. distance (orig ! k) \<le> distance (orig ! m)"
      using mn False len by auto
    ultimately show ?thesis using kl d0 st by auto
  next
    case True
    then have jl: "j < length orig" using len by simp
    have dj: "ds ! j = orig ! j" using tl jl by simp
    let ?ds' = "if distance (ds ! j) < distance (ds ! i) then ds[i := ds ! j, j := ds ! i] else ds"
    have step: "sort_inner i j ds = sort_inner i (j + 1) ?ds'"
      using True by (simp add: sort_inner_step)
    have len': "length ?ds' = length orig" using len by simp
    have tl': "\<forall>m. j + 1 \<le> m \<and> m < length orig \<longrightarrow> ?ds' ! m = orig ! m"
      using tl i0 j0 by auto
    show ?thesis
    proof (cases "distance (ds ! j) < distance (ds ! i)")
      case sw: True
      then have lt: "distance (orig ! j) < distance (orig ! k)" using dj d0 i0 by simp
      have "0 < length ds" using True by (cases ds) simp_all
      then have h0: "?ds' ! 0 = orig ! j" using sw i0 j0 True dj by simp
      have mn': "\<forall>m<j + 1. m < length orig \<longrightarrow> distance (orig ! j) \<le> distance (orig ! m)"
      proof (intro allI impI)
        fix m assume m: "m < j + 1" "m < length orig"
        show "distance (orig ! j) \<le> distance (orig ! m)"
        proof (cases "m = j")
          case True then show ?thesis by simp
        next
          case False
          then have "m < j" using m by simp
          then have "distance (orig ! k) \<le> distance (orig ! m)" using mn m by simp
          with lt show ?thesis by simp
        qed
      qed
      have st': "\<forall>m<j. distance (orig ! j) < distance (orig ! m)"
      proof (intro allI impI)
        fix m assume m: "m < j"
        then have "distance (orig ! k) \<le> distance (orig ! m)" using mn jl by simp
        with lt show "distance (orig ! j) < distance (orig ! m)" by simp
      qed
      from "1.IH"[OF True i0 _ len' _ jl h0 mn' st' tl', of ]
      show ?thesis using step by simp
    next
      case nsw: False
      then have le: "distance (orig ! k) \<le> distance (orig ! j)" using dj d0 i0 by simp
      have h0: "?ds' ! 0 = orig ! k" using nsw d0 by simp
      have mn': "\<forall>m<j + 1. m < length orig \<longrightarrow> distance (orig ! k) \<le> distance (orig ! m)"
      proof (intro allI impI)
        fix m assume m: "m < j + 1" "m < length orig"
        show "distance (orig ! k) \<le> distance (orig ! m)"
        proof (cases "m = j")
          case True then show ?thesis using le by simp
        next
          case False
          then have "m < j" using m by simp
          then show ?thesis using mn m by simp
        qed
      qed
      have kj': "k < j + 1" using kj by simp
      from "1.IH"[OF True i0 _ len' kj' kl h0 mn' st tl']
      show ?thesis using step by simp
    qed
  qed
qed

lemma sort_outer_keeps_head:
  "0 < i \<Longrightarrow> ds \<noteq> [] \<Longrightarrow> sort_outer i ds ! 0 = ds ! 0"
proof (induction i ds rule: sort_outer.induct)
  case (1 i ds)
  show ?case
  proof (cases "Suc i < length ds")
    case True
    let ?r = "sort_inner i (i + 1) ds"
    have c: "int i < int (length ds) - 1" using True by simp
    have ne: "?r \<noteq> []" using "1.prems"(2) sort_inner_length[of i "i + 1" ds] by auto
    have "sort_outer (i + 1) ?r ! 0 = ?r ! 0" using "1.IH"[OF c _ ne] by simp
    also have "?r ! 0 = take i ?r ! 0" using "1.prems"(1) by simp
    also have "\<dots> = take i ds ! 0" by (simp add: sort_inner_take)
    also have "\<dots> = ds ! 0" using "1.prems"(1) by simp
    finally show ?thesis using True by (simp add: sort_outer_step)
  next
    case False
    then show ?thesis by (simp add: sort_outer_stop)
  qed
qed

lemma sort_outer_first_min:
  assumes "ds \<noteq> []"
  shows "\<exists>k<length ds. sort_outer 0 ds ! 0 = ds ! k \<and>
      (\<forall>m<length ds. distance (ds ! k) \<le> distance (ds ! m)) \<and>
      (\<forall>m<k. distance (ds ! k) < distance (ds ! m))"
proof (cases "Suc 0 < length ds")
  case False
  then have "sort_outer 0 ds = ds" by (simp add: sort_outer_stop)
  moreover have "length ds = 1" using False assms by (cases ds) auto
  ultimately show ?thesis by (intro exI[of _ 0]) simp
next
  case True
  let ?r = "sort_inner 0 (Suc 0) ds"
  have ne: "?r \<noteq> []" using assms sort_inner_length[of 0 "Suc 0" ds] by auto
  have "sort_outer 0 ds ! 0 = sort_outer (Suc 0) ?r ! 0" using True by (simp add: sort_outer_step)
  also have "\<dots> = ?r ! 0" using ne by (intro sort_outer_keeps_head) simp
  finally have eq: "sort_outer 0 ds ! 0 = ?r ! 0" .
  have "\<exists>k'<length ds. ?r ! 0 = ds ! k' \<and>
      (\<forall>m<length ds. distance (ds ! k') \<le> distance (ds ! m)) \<and>
      (\<forall>m<k'. distance (ds ! k') < distance (ds ! m))"
    using True assms by (intro sort_inner_first_min[where k = 0]) simp_all
  then show ?thesis using eq by simp
qed

lemma sorted_upto_0: "sorted_upto 0 ds"
  by (simp add: sorted_upto_def)

text \<open>
  C3, as amended. For \<open>0 < N \<le> length hubs\<close>, \<^verbatim>\<open>FindNearestHubs\<close> returns exactly \<open>N\<close> hubs
  in non-decreasing order of distance; they are \<open>N\<close> of smallest distance (no hub left
  out is nearer than a returned one); the result takes each entry of the input at most
  once, so it has no duplicates when the input has none; and the first hub returned is
  the first hub of least distance in input order. Only the order of hubs at equal
  distance after the first position is left open.
\<close>

theorem FindNearestHubs_smallest_sorted:
  assumes "0 < N" and "N \<le> int (length hubs)"
  shows "\<exists>res rest. FindNearestHubs point hubs N = Inr res \<and> length res = nat N \<and>
           sorted (map (hub_distance point) res) \<and>
           mset hubs = mset res + mset rest \<and>
           (\<forall>r\<in>set res. \<forall>h\<in>set rest. hub_distance point r \<le> hub_distance point h) \<and>
           (distinct hubs \<longrightarrow> distinct res) \<and>
           (\<exists>i<length hubs. res ! 0 = hubs ! i \<and>
              (\<forall>h\<in>set hubs. hub_distance point (hubs ! i) \<le> hub_distance point h) \<and>
              (\<forall>j<i. hub_distance point (hubs ! i) < hub_distance point (hubs ! j)))"
proof -
  let ?mk = "\<lambda>h. \<lparr>hub = h, distance = CalculateDistance point (hub_Location h)\<rparr>"
  let ?s = "sort_outer 0 (map ?mk hubs)"
  let ?hs = "map hub ?s"
  let ?f = "hub_distance point"
  have so: "sorted (map distance ?s)" and ms: "mset ?s = mset (map ?mk hubs)"
    using sort_outer_sorted[OF sorted_upto_0, of "map ?mk hubs"] by simp_all
  have "set ?s = set (map ?mk hubs)" using ms by (rule mset_eq_setD)
  then have el: "\<forall>e\<in>set ?s. distance e = ?f (hub e)"
    by (auto simp: hub_distance_def)
  have mf: "map ?f ?hs = map distance ?s" using el by simp
  have unmk: "map hub (map ?mk hubs) = hubs" by (induction hubs) simp_all
  have "mset ?hs = mset (map hub (map ?mk hubs))" by (simp only: mset_map ms)
  then have mh: "mset ?hs = mset hubs" by (simp only: unmk)
  have len: "length ?hs = length hubs" using arg_cong[OF mh, of size] by simp
  let ?res = "take (nat N) ?hs" and ?rest = "drop (nat N) ?hs"
  have r: "FindNearestHubs point hubs N = Inr ?res"
    using assms by (simp add: FindNearestHubs_def Let_def take_map)
  have l: "length ?res = nat N" using assms len by simp
  have sf: "sorted (map ?f (?res @ ?rest))"
    unfolding append_take_drop_id mf by (rule so)
  then have s1: "sorted (map ?f ?res)"
    and s2: "\<forall>r\<in>set ?res. \<forall>h\<in>set ?rest. ?f r \<le> ?f h"
    unfolding map_append sorted_append by auto
  have m: "mset hubs = mset ?res + mset ?rest"
    unfolding mset_append[symmetric] append_take_drop_id by (rule mh[symmetric])
  have dh: "distinct ?hs = distinct hubs" by (rule mset_eq_imp_distinct_iff[OF mh])
  have d: "distinct hubs \<longrightarrow> distinct ?res"
  proof
    assume "distinct hubs"
    with dh have "distinct ?hs" by (simp only:)
    then show "distinct ?res" by (rule distinct_take)
  qed
  have hne: "hubs \<noteq> []" using assms by auto
  then have ne: "map ?mk hubs \<noteq> []" by simp
  from sort_outer_first_min[OF ne] obtain k where k: "k < length hubs"
    "?s ! 0 = map ?mk hubs ! k"
    "\<forall>m<length hubs. distance (map ?mk hubs ! k) \<le> distance (map ?mk hubs ! m)"
    "\<forall>m<k. distance (map ?mk hubs ! k) < distance (map ?mk hubs ! m)"
    by auto
  have sl: "0 < length ?s" using len hne by simp
  have "?res ! 0 = ?hs ! 0" using assms(1) by simp
  also have "\<dots> = hub (?s ! 0)" using sl by (rule nth_map)
  also have "\<dots> = hubs ! k" using k(1,2) by simp
  finally have f0: "?res ! 0 = hubs ! k" .
  have f1: "\<forall>h\<in>set hubs. ?f (hubs ! k) \<le> ?f h"
  proof
    fix h assume "h \<in> set hubs"
    then obtain m where "m < length hubs" "h = hubs ! m" by (auto simp: in_set_conv_nth)
    then show "?f (hubs ! k) \<le> ?f h" using k(1,3) by (simp add: hub_distance_def)
  qed
  have f2: "\<forall>j<k. ?f (hubs ! k) < ?f (hubs ! j)"
    using k(1,4) by (simp add: hub_distance_def)
  have f: "\<exists>i<length hubs. ?res ! 0 = hubs ! i \<and>
      (\<forall>h\<in>set hubs. ?f (hubs ! i) \<le> ?f h) \<and> (\<forall>j<i. ?f (hubs ! i) < ?f (hubs ! j))"
    using k(1) f0 f1 f2 by blast
  show ?thesis
    by (rule exI[of _ ?res], rule exI[of _ ?rest]) (intro conjI r l s1 m s2 d f)
qed

theorem FindNearestHubs_smallest_sorted_witness:
  "(0::int) < 2 \<and>
   (2::int) \<le> int (length [\<lparr>hub_ID = ''A'', hub_Location = \<lparr>X = 2, Y = 0\<rparr>\<rparr>,
      \<lparr>hub_ID = ''B'', hub_Location = \<lparr>X = 0, Y = 2\<rparr>\<rparr>,
      \<lparr>hub_ID = ''C'', hub_Location = \<lparr>X = 1, Y = 0\<rparr>\<rparr>]) \<and>
   (\<exists>res rest. FindNearestHubs \<lparr>X = 0, Y = 0\<rparr>
     [\<lparr>hub_ID = ''A'', hub_Location = \<lparr>X = 2, Y = 0\<rparr>\<rparr>,
      \<lparr>hub_ID = ''B'', hub_Location = \<lparr>X = 0, Y = 2\<rparr>\<rparr>,
      \<lparr>hub_ID = ''C'', hub_Location = \<lparr>X = 1, Y = 0\<rparr>\<rparr>] 2 = Inr res \<and>
      length res = 2 \<and> sorted (map (hub_distance \<lparr>X = 0, Y = 0\<rparr>) res) \<and>
      mset [\<lparr>hub_ID = ''A'', hub_Location = \<lparr>X = 2, Y = 0\<rparr>\<rparr>,
      \<lparr>hub_ID = ''B'', hub_Location = \<lparr>X = 0, Y = 2\<rparr>\<rparr>,
      \<lparr>hub_ID = ''C'', hub_Location = \<lparr>X = 1, Y = 0\<rparr>\<rparr>] = mset res + mset rest \<and>
      distinct res \<and>
      res ! 0 = \<lparr>hub_ID = ''C'', hub_Location = \<lparr>X = 1, Y = 0\<rparr>\<rparr>)"
proof -
  let ?hubs = "[\<lparr>hub_ID = ''A'', hub_Location = \<lparr>X = 2, Y = 0\<rparr>\<rparr>,
      \<lparr>hub_ID = ''B'', hub_Location = \<lparr>X = 0, Y = 2\<rparr>\<rparr>,
      \<lparr>hub_ID = ''C'', hub_Location = \<lparr>X = 1, Y = 0\<rparr>\<rparr>]"
  have h: "(0::int) < 2" "(2::int) \<le> int (length ?hubs)" "distinct ?hubs"
    by simp_all
  have dd: "hub_distance \<lparr>X = 0, Y = 0\<rparr> (?hubs ! 0) = 2" "hub_distance \<lparr>X = 0, Y = 0\<rparr> (?hubs ! 1) = 2"
    "hub_distance \<lparr>X = 0, Y = 0\<rparr> (?hubs ! 2) = 1"
    by (simp_all add: hub_distance_def CalculateDistance_def)
  from FindNearestHubs_smallest_sorted[OF h(1,2), of "\<lparr>X = 0, Y = 0\<rparr>"]
  obtain res rest i where r:
    "FindNearestHubs \<lparr>X = 0, Y = 0\<rparr> ?hubs 2 = Inr res"
    "length res = nat 2"
    "sorted (map (hub_distance \<lparr>X = 0, Y = 0\<rparr>) res)"
    "mset ?hubs = mset res + mset rest"
    "distinct ?hubs \<longrightarrow> distinct res"
    "i < length ?hubs" "res ! 0 = ?hubs ! i"
    "\<forall>h\<in>set ?hubs. hub_distance \<lparr>X = 0, Y = 0\<rparr> (?hubs ! i) \<le> hub_distance \<lparr>X = 0, Y = 0\<rparr> h"
    by blast
  from r(5) h(3) have dr: "distinct res" by (rule mp)
  from r(2) have lr: "length res = 2" by simp
  have "?hubs ! 2 \<in> set ?hubs" by simp
  with r(8) have le: "hub_distance \<lparr>X = 0, Y = 0\<rparr> (?hubs ! i) \<le> hub_distance \<lparr>X = 0, Y = 0\<rparr> (?hubs ! 2)"
    by blast
  from r(6) have "i = 0 \<or> i = 1 \<or> i = 2" by auto
  then have "i = 2" using le dd by auto
  then have "res ! 0 = \<lparr>hub_ID = ''C'', hub_Location = \<lparr>X = 1, Y = 0\<rparr>\<rparr>" using r(7) by simp
  then have "\<exists>res rest. FindNearestHubs \<lparr>X = 0, Y = 0\<rparr> ?hubs 2 = Inr res \<and>
      length res = 2 \<and> sorted (map (hub_distance \<lparr>X = 0, Y = 0\<rparr>) res) \<and>
      mset ?hubs = mset res + mset rest \<and> distinct res \<and> res ! 0 = \<lparr>hub_ID = ''C'', hub_Location = \<lparr>X = 1, Y = 0\<rparr>\<rparr>"
    using r(1,3,4) dr lr by blast
  with h(1,2) show ?thesis by blast
qed

text \<open>
  C3 as stated fails: the sort exchanges entries that are far apart and is not stable.
  With \<open>A\<close> and \<open>B\<close> both at distance 2 and \<open>C\<close> at distance 1, the two nearest hubs
  come back as \<open>C\<close>, \<open>B\<close>, where input order would give \<open>C\<close>, \<open>A\<close>.
\<close>

theorem FindNearestHubs_not_stable:
  "FindNearestHubs \<lparr>X = 0, Y = 0\<rparr>
     [\<lparr>hub_ID = ''A'', hub_Location = \<lparr>X = 2, Y = 0\<rparr>\<rparr>,
      \<lparr>hub_ID = ''B'', hub_Location = \<lparr>X = 0, Y = 2\<rparr>\<rparr>,
      \<lparr>hub_ID = ''C'', hub_Location = \<lparr>X = 1, Y = 0\<rparr>\<rparr>] 2
   = Inr [\<lparr>hub_ID = ''C'', hub_Location = \<lparr>X = 1, Y = 0\<rparr>\<rparr>,
          \<lparr>hub_ID = ''B'', hub_Location = \<lparr>X = 0, Y = 2\<rparr>\<rparr>] \<and>
   spec_nearest_stable \<lparr>X = 0, Y = 0\<rparr>
     [\<lparr>hub_ID = ''A'', hub_Location = \<lparr>X = 2, Y = 0\<rparr>\<rparr>,
      \<lparr>hub_ID = ''B'', hub_Location = \<lparr>X = 0, Y = 2\<rparr>\<rparr>,
      \<lparr>hub_ID = ''C'', hub_Location = \<lparr>X = 1, Y = 0\<rparr>\<rparr>] 2
   = [\<lparr>hub_ID = ''C'', hub_Location = \<lparr>X = 1, Y = 0\<rparr>\<rparr>,
      \<lparr>hub_ID = ''A'', hub_Location = \<lparr>X = 2, Y = 0\<rparr>\<rparr>]"
proof -
  have d: "CalculateDistance \<lparr>X = 0, Y = 0\<rparr> \<lparr>X = 2, Y = 0\<rparr> = 2"
    "CalculateDistance \<lparr>X = 0, Y = 0\<rparr> \<lparr>X = 0, Y = 2\<rparr> = 2"
    "CalculateDistance \<lparr>X = 0, Y = 0\<rparr> \<lparr>X = 1, Y = 0\<rparr> = 1"
    by (simp_all add: CalculateDistance_def)
  have "FindNearestHubs \<lparr>X = 0, Y = 0\<rparr>
     [\<lparr>hub_ID = ''A'', hub_Location = \<lparr>X = 2, Y = 0\<rparr>\<rparr>,
      \<lparr>hub_ID = ''B'', hub_Location = \<lparr>X = 0, Y = 2\<rparr>\<rparr>,
      \<lparr>hub_ID = ''C'', hub_Location = \<lparr>X = 1, Y = 0\<rparr>\<rparr>] 2
   = Inr [\<lparr>hub_ID = ''C'', hub_Location = \<lparr>X = 1, Y = 0\<rparr>\<rparr>,
          \<lparr>hub_ID = ''B'', hub_Location = \<lparr>X = 0, Y = 2\<rparr>\<rparr>]"
    unfolding FindNearestHubs_def Let_def
    by (simp add: d sort_outer_step sort_outer_stop sort_inner_step sort_inner_stop)
  moreover have "spec_nearest_stable \<lparr>X = 0, Y = 0\<rparr>
     [\<lparr>hub_ID = ''A'', hub_Location = \<lparr>X = 2, Y = 0\<rparr>\<rparr>,
      \<lparr>hub_ID = ''B'', hub_Location = \<lparr>X = 0, Y = 2\<rparr>\<rparr>,
      \<lparr>hub_ID = ''C'', hub_Location = \<lparr>X = 1, Y = 0\<rparr>\<rparr>] 2
   = [\<lparr>hub_ID = ''C'', hub_Location = \<lparr>X = 1, Y = 0\<rparr>\<rparr>,
      \<lparr>hub_ID = ''A'', hub_Location = \<lparr>X = 2, Y = 0\<rparr>\<rparr>]"
    by (simp add: spec_nearest_stable_def hub_distance_def d)
  ultimately show ?thesis by (rule conjI)
qed

section \<open>The invariants of Dijkstra's loop\<close>

lemma xreal_le_simps [simp]:
  "(Fin a \<le> Fin b) = (a \<le> b)" "x \<le> PInf" "(PInf \<le> Fin a) = False"
  by (simp_all add: less_eq_xreal_def split: xreal.splits)

lemma xreal_less_simps [simp]:
  "(Fin a < Fin b) = (a < b)" "(Fin a < PInf) = True" "(PInf < x) = False"
  by (simp_all add: less_xreal_def split: xreal.splits)

lemma xadd_simps [simp]: "xadd (Fin x) c = Fin (x + c)" "xadd PInf c = PInf"
  by (simp_all add: xadd_def)

lemma xadd_ge: "0 \<le> c \<Longrightarrow> a \<le> xadd a c"
  by (cases a) simp_all

lemma dist_at_simps [simp]: "d k = Some x \<Longrightarrow> dist_at d k = x" "d k = None \<Longrightarrow> dist_at d k = Fin 0"
  by (simp_all add: dist_at_def)

lemma nonneg_weights_neighbors:
  assumes "nonneg_weights g" and "e \<in> set (neighbors_of g v)"
  shows "0 \<le> snd e"
proof (cases "map_of (Neighbors g) v")
  case None
  with assms(2) show ?thesis by (simp add: neighbors_of_def)
next
  case (Some nb)
  then have "(v, nb) \<in> set (Neighbors g)" by (rule map_of_SomeD)
  then have "nb \<in> snd ` set (Neighbors g)" by force
  moreover have "e \<in> set nb" using assms(2) Some by (simp add: neighbors_of_def)
  ultimately show ?thesis using assms(1) unfolding nonneg_weights_def by blast
qed

lemma init_distances_eq:
  "init_distances g v = (if has_node g v then Some PInf else None)"
proof -
  have "foldl (\<lambda>d e. d(fst e \<mapsto> PInf)) d0 al v =
          (if map_of al v = None then d0 v else Some PInf)"
    for d0 :: "string \<rightharpoonup> xreal" and al :: "(string \<times> bool) list"
  proof (induction al arbitrary: d0)
    case Nil then show ?case by simp
  next
    case (Cons e al) then show ?case by (cases e) auto
  qed
  from this[of Map.empty "Nodes g"] show ?thesis
    by (auto simp: init_distances_def has_node_def)
qed

lemma heap_Pop_set:
  assumes "pq \<noteq> []"
  shows "set pq = insert (fst (heap_Pop sel pq)) (set (snd (heap_Pop sel pq)))"
  using arg_cong[OF heap_Pop_mset[OF assms, of sel], of set_mset] by simp

lemma relax_skip:
  "\<not> xadd (dist_at (distances st) c) cost < dist_at (distances st) w \<Longrightarrow>
   relax c st (w, cost) = st"
  by (simp add: relax_def Let_def)

lemma relax_update:
  "xadd (dist_at (distances st) c) cost < dist_at (distances st) w \<Longrightarrow>
   relax c st (w, cost) =
     st\<lparr>distances := (distances st)(w \<mapsto> xadd (dist_at (distances st) c) cost),
        previous := (previous st)(w \<mapsto> c),
        priorityQueue := priorityQueue st @
           [\<lparr>Value = w, Priority = xadd (dist_at (distances st) c) cost\<rparr>]\<rparr>"
  by (simp add: relax_def Let_def heap_Push_def)

lemma inner_inv_relax:
  assumes inv: "inner_inv g s st c (e # pend)" and nn: "nonneg_weights g"
  shows "inner_inv g s (relax c st e) c pend"
proof -
  obtain w cost where e: "e = (w, cost)" by (cases e)
  let ?D = "distances st" and ?P = "previous st" and ?Q = "priorityQueue st"
    and ?V = "visited st"
  from inv have
    dom: "I_dom g st" and start: "I_start s st" and nonneg: "I_nonneg st"
    and reach: "I_reach g s st" and prev: "I_prev s st" and queue: "I_queue st"
    and front: "I_front st" and settled: "I_settled st" and rank: "I_rank st"
    and relaxed: "I_relaxed g st c (e # pend)" and cur: "I_cur g st c (e # pend)"
    by (simp_all add: inner_inv_def core_inv_def)
  from cur obtain x where cV: "c \<in> ?V"
    and cmax: "\<And>u. u \<in> ?V \<Longrightarrow> dist_at ?D u \<le> dist_at ?D c"
    and sub: "set (e # pend) \<subseteq> set (neighbors_of g c)"
    and Dc: "?D c = Some (Fin x)"
    unfolding I_cur_def by blast
  have dc: "dist_at ?D c = Fin x" using Dc by simp
  have x0: "0 \<le> x" using nonneg Dc unfolding I_nonneg_def by fastforce
  have eN: "e \<in> set (neighbors_of g c)" using sub by simp
  have cost0: "0 \<le> cost" using nonneg_weights_neighbors[OF nn eN] e by simp
  let ?alt = "Fin (x + cost)"
  have alt: "xadd (dist_at ?D c) cost = ?alt" using dc by simp
  show ?thesis
  proof (cases "?alt < dist_at ?D w")
    case False
    then have same: "relax c st e = st" using e alt by (simp add: relax_skip)
    have le: "dist_at ?D w \<le> ?alt" using False by simp
    have "I_relaxed g st c pend"
      unfolding I_relaxed_def
    proof (intro ballI)
      fix v e' assume v: "v \<in> ?V" and e': "e' \<in> set (neighbors_of g v)"
      from relaxed v e'
      have "(v = c \<and> e' \<in> set (e # pend)) \<or>
            dist_at ?D (fst e') \<le> xadd (dist_at ?D v) (snd e')"
        unfolding I_relaxed_def by blast
      then show "(v = c \<and> e' \<in> set pend) \<or>
            dist_at ?D (fst e') \<le> xadd (dist_at ?D v) (snd e')"
        using le e alt by auto
    qed
    moreover have "I_cur g st c pend" using cur unfolding I_cur_def by auto
    ultimately show ?thesis using inv same by (simp add: inner_inv_def)
  next
    case True
    let ?D' = "?D(w \<mapsto> ?alt)"
    let ?st' = "st\<lparr>distances := ?D', previous := ?P(w \<mapsto> c),
                   priorityQueue := ?Q @ [\<lparr>Value = w, Priority = ?alt\<rparr>]\<rparr>"
    have upd: "relax c st e = ?st'" using e alt True by (simp add: relax_update)
    have wV: "w \<notin> ?V"
    proof
      assume "w \<in> ?V"
      then have "dist_at ?D w \<le> Fin x" using cmax dc by simp
      with True show False using cost0 by (cases "dist_at ?D w") auto
    qed
    have wD: "?D w \<noteq> None"
    proof
      assume "?D w = None"
      then have "dist_at ?D w = Fin 0" by simp
      with True x0 cost0 show False by simp
    qed
    have ws: "w \<noteq> s"
    proof
      assume "w = s"
      then have "dist_at ?D w = Fin 0" using start by (simp add: I_start_def)
      with True x0 cost0 show False by simp
    qed
    have wc: "w \<noteq> c" using wV cV by auto
    have d_same: "v \<noteq> w \<Longrightarrow> dist_at ?D' v = dist_at ?D v" for v
      by (simp add: dist_at_def)
    have d_w: "dist_at ?D' w = ?alt" by simp
    have d_le: "dist_at ?D' v \<le> dist_at ?D v" for v
      using True by (cases "v = w") (simp_all add: d_same)
    have i1: "I_dom g ?st'"
      using dom wD unfolding I_dom_def by auto
    have i2: "I_start s ?st'"
      using start ws unfolding I_start_def by simp
    have i3: "I_nonneg ?st'"
      using nonneg x0 cost0 unfolding I_nonneg_def by auto
    have rc: "reachable g s c" using reach Dc unfolding I_reach_def by blast
    have rw: "reachable g s w" using reachable_step[OF rc eN] e by simp
    have i4: "I_reach g s ?st'"
      using reach rw unfolding I_reach_def by auto
    have i5: "I_prev s ?st'"
      using prev ws cV unfolding I_prev_def by auto
    have i6: "I_queue ?st'"
      unfolding I_queue_def
    proof (intro ballI)
      fix it assume "it \<in> set (priorityQueue ?st')"
      then consider "it \<in> set ?Q" | "it = \<lparr>Value = w, Priority = ?alt\<rparr>" by auto
      then show "distances ?st' (Value it) \<noteq> None \<and>
          dist_at (distances ?st') (Value it) \<le> Priority it \<and> Priority it \<noteq> PInf"
      proof cases
        case 1
        with queue have q: "?D (Value it) \<noteq> None" "dist_at ?D (Value it) \<le> Priority it"
          "Priority it \<noteq> PInf" unfolding I_queue_def by blast+
        have "dist_at ?D' (Value it) \<le> Priority it"
          using d_le[of "Value it"] q(2) by (rule order_trans)
        with q show ?thesis by auto
      next
        case 2
        then show ?thesis by simp
      qed
    qed
    have i7: "I_front ?st'"
      using front unfolding I_front_def by auto
    have i8: "I_settled ?st'"
      unfolding I_settled_def
    proof (intro ballI)
      fix v it assume v: "v \<in> visited ?st'" and it: "it \<in> set (priorityQueue ?st')"
      from v have vV: "v \<in> ?V" by simp
      then have vw: "v \<noteq> w" using wV by auto
      from it consider "it \<in> set ?Q" | "it = \<lparr>Value = w, Priority = ?alt\<rparr>" by auto
      then have "dist_at ?D v \<le> Priority it"
      proof cases
        case 1
        with settled vV show ?thesis unfolding I_settled_def by blast
      next
        case 2
        have "dist_at ?D v \<le> Fin x" using cmax[OF vV] dc by simp
        also have "\<dots> \<le> ?alt" using cost0 by simp
        finally show ?thesis using 2 by simp
      qed
      then show "dist_at (distances ?st') v \<le> Priority it" using vw by (simp add: d_same)
    qed
    have i9: "I_rank ?st'"
    proof -
      from rank obtain rk :: "string \<Rightarrow> nat" and n where
        r1: "\<forall>v\<in>?V. rk v < n" and
        r2: "\<forall>v u. ?P v = Some u \<longrightarrow> v \<in> ?V \<longrightarrow> rk u < rk v"
        unfolding I_rank_def by blast
      have r2': "\<forall>v u. previous ?st' v = Some u \<longrightarrow> v \<in> visited ?st' \<longrightarrow> rk u < rk v"
        using r2 wV by auto
      have r1': "\<forall>v\<in>visited ?st'. rk v < n" using r1 by simp
      show ?thesis unfolding I_rank_def using r1' r2' by blast
    qed
    have i10: "I_relaxed g ?st' c pend"
      unfolding I_relaxed_def
    proof (intro ballI)
      fix v e' assume v: "v \<in> visited ?st'" and e': "e' \<in> set (neighbors_of g v)"
      from v have vV: "v \<in> ?V" by simp
      then have vw: "v \<noteq> w" using wV by auto
      from relaxed vV e'
      consider "v = c" "e' = e" | "v = c" "e' \<in> set pend"
        | "dist_at ?D (fst e') \<le> xadd (dist_at ?D v) (snd e')"
        unfolding I_relaxed_def by auto
      then show "(v = c \<and> e' \<in> set pend) \<or>
          dist_at (distances ?st') (fst e') \<le> xadd (dist_at (distances ?st') v) (snd e')"
      proof cases
        case 1
        then have "dist_at ?D' (fst e') = xadd (dist_at ?D' v) (snd e')"
          using e dc wc by (simp add: d_same)
        then show ?thesis by simp
      next
        case 2
        then show ?thesis by simp
      next
        case 3
        have "dist_at ?D' (fst e') \<le> xadd (dist_at ?D v) (snd e')"
          using d_le[of "fst e'"] 3 by (rule order_trans)
        then show ?thesis using vw by (simp add: d_same)
      qed
    qed
    have i11: "I_cur g ?st' c pend"
      unfolding I_cur_def
    proof (intro conjI ballI)
      show "c \<in> visited ?st'" using cV by simp
      show "set pend \<subseteq> set (neighbors_of g c)" using sub by simp
      show "\<exists>x. distances ?st' c = Some (Fin x)" using Dc wc by simp
    next
      fix u assume "u \<in> visited ?st'"
      then have uV: "u \<in> ?V" by simp
      then have "u \<noteq> w" using wV by auto
      then show "dist_at (distances ?st') u \<le> dist_at (distances ?st') c"
        using cmax[OF uV] wc by (simp add: d_same)
    qed
    show ?thesis unfolding upd inner_inv_def core_inv_def
      using i1 i2 i3 i4 i5 i6 i7 i8 i9 i10 i11 by blast
  qed
qed

lemma inner_inv_foldl:
  "inner_inv g s st c pend \<Longrightarrow> nonneg_weights g \<Longrightarrow>
   inner_inv g s (foldl (relax c) st pend) c []"
proof (induction pend arbitrary: st)
  case Nil
  then show ?case by simp
next
  case (Cons e pend)
  have "inner_inv g s (relax c st e) c pend"
    using Cons.prems by (rule inner_inv_relax)
  from Cons.IH[OF this Cons.prems(2)] show ?case by simp
qed

lemma inner_inv_done: "inner_inv g s st c [] \<Longrightarrow> outer_inv g s st"
  unfolding inner_inv_def outer_inv_def I_relaxed_def by simp

lemma outer_inv_discard:
  assumes inv: "outer_inv g s st" and ne: "priorityQueue st \<noteq> []"
    and vis: "Value (fst (heap_Pop sel (priorityQueue st))) \<in> visited st"
  shows "outer_inv g s (st\<lparr>priorityQueue := snd (heap_Pop sel (priorityQueue st))\<rparr>)"
proof -
  let ?it = "fst (heap_Pop sel (priorityQueue st))"
  let ?rest = "snd (heap_Pop sel (priorityQueue st))"
  let ?st' = "st\<lparr>priorityQueue := ?rest\<rparr>"
  have qs: "set (priorityQueue st) = insert ?it (set ?rest)" using ne by (rule heap_Pop_set)
  from inv have
    dom: "I_dom g st" and start: "I_start s st" and nonneg: "I_nonneg st"
    and reach: "I_reach g s st" and prev: "I_prev s st" and queue: "I_queue st"
    and front: "I_front st" and settled: "I_settled st" and rank: "I_rank st"
    and relaxed: "I_relaxed g st [] []"
    by (simp_all add: outer_inv_def core_inv_def)
  have i1: "I_dom g ?st'" using dom unfolding I_dom_def by simp
  have i2: "I_start s ?st'" using start unfolding I_start_def by simp
  have i3: "I_nonneg ?st'" using nonneg unfolding I_nonneg_def by simp
  have i4: "I_reach g s ?st'" using reach unfolding I_reach_def by simp
  have i5: "I_prev s ?st'" using prev unfolding I_prev_def by simp
  have i6: "I_queue ?st'" using queue qs unfolding I_queue_def by simp
  have i7: "I_front ?st'"
    unfolding I_front_def
  proof (intro allI impI)
    fix v x assume h: "v \<notin> visited ?st' \<and> distances ?st' v = Some (Fin x)"
    then have "\<lparr>Value = v, Priority = Fin x\<rparr> \<in> set (priorityQueue st)"
      using front unfolding I_front_def by simp
    moreover have "\<lparr>Value = v, Priority = Fin x\<rparr> \<noteq> ?it"
    proof
      assume "\<lparr>Value = v, Priority = Fin x\<rparr> = ?it"
      from arg_cong[OF this, of Value] have "v = Value ?it" by simp
      with h vis show False by simp
    qed
    ultimately show "\<lparr>Value = v, Priority = Fin x\<rparr> \<in> set (priorityQueue ?st')"
      using qs by simp
  qed
  have i8: "I_settled ?st'" using settled qs unfolding I_settled_def by simp
  have i9: "I_rank ?st'" using rank unfolding I_rank_def by simp
  have i10: "I_relaxed g ?st' [] []" using relaxed unfolding I_relaxed_def by simp
  show ?thesis unfolding outer_inv_def core_inv_def
    using i1 i2 i3 i4 i5 i6 i7 i8 i9 i10 by blast
qed

lemma outer_inv_visit:
  assumes inv: "outer_inv g s st" and ne: "priorityQueue st \<noteq> []"
    and nvis: "Value (fst (heap_Pop sel (priorityQueue st))) \<notin> visited st"
  shows "inner_inv g s
           (st\<lparr>priorityQueue := snd (heap_Pop sel (priorityQueue st)),
               visited := insert (Value (fst (heap_Pop sel (priorityQueue st)))) (visited st)\<rparr>)
           (Value (fst (heap_Pop sel (priorityQueue st))))
           (neighbors_of g (Value (fst (heap_Pop sel (priorityQueue st)))))"
proof -
  let ?it = "fst (heap_Pop sel (priorityQueue st))"
  let ?rest = "snd (heap_Pop sel (priorityQueue st))"
  let ?c = "Value ?it"
  let ?D = "distances st" and ?P = "previous st" and ?Q = "priorityQueue st"
    and ?V = "visited st"
  let ?st' = "st\<lparr>priorityQueue := ?rest, visited := insert ?c ?V\<rparr>"
  have qs: "set ?Q = insert ?it (set ?rest)" using ne by (rule heap_Pop_set)
  have mn: "\<And>x. x \<in> set ?Q \<Longrightarrow> Priority ?it \<le> Priority x" using ne by (rule heap_Pop_min)
  have itQ: "?it \<in> set ?Q" using qs by simp
  from inv have
    dom: "I_dom g st" and start: "I_start s st" and nonneg: "I_nonneg st"
    and reach: "I_reach g s st" and prev: "I_prev s st" and queue: "I_queue st"
    and front: "I_front st" and settled: "I_settled st" and rank: "I_rank st"
    and relaxed: "I_relaxed g st [] []"
    by (simp_all add: outer_inv_def core_inv_def)
  from queue itQ have q: "?D ?c \<noteq> None" "dist_at ?D ?c \<le> Priority ?it" "Priority ?it \<noteq> PInf"
    unfolding I_queue_def by blast+
  from q(1) obtain dc where Dc0: "?D ?c = Some dc" by blast
  then have "dc \<le> Priority ?it" using q(2) by simp
  with q(3) obtain x where dcx: "dc = Fin x" by (cases dc; cases "Priority ?it") auto
  have Dc: "?D ?c = Some (Fin x)" using Dc0 dcx by simp
  have dc: "dist_at ?D ?c = Fin x" using Dc by simp
  have item0: "\<lparr>Value = ?c, Priority = Fin x\<rparr> \<in> set ?Q"
    using front nvis Dc unfolding I_front_def by blast
  have i1: "I_dom g ?st'" using dom unfolding I_dom_def by simp
  have i2: "I_start s ?st'" using start unfolding I_start_def by simp
  have i3: "I_nonneg ?st'" using nonneg unfolding I_nonneg_def by simp
  have i4: "I_reach g s ?st'" using reach unfolding I_reach_def by simp
  have i5: "I_prev s ?st'" using prev unfolding I_prev_def by simp
  have i6: "I_queue ?st'" using queue qs unfolding I_queue_def by simp
  have i7: "I_front ?st'"
    unfolding I_front_def
  proof (intro allI impI)
    fix v y assume h: "v \<notin> visited ?st' \<and> distances ?st' v = Some (Fin y)"
    then have "\<lparr>Value = v, Priority = Fin y\<rparr> \<in> set ?Q"
      using front unfolding I_front_def by simp
    moreover have "\<lparr>Value = v, Priority = Fin y\<rparr> \<noteq> ?it"
    proof
      assume "\<lparr>Value = v, Priority = Fin y\<rparr> = ?it"
      from arg_cong[OF this, of Value] have "v = Value ?it" by simp
      with h show False by simp
    qed
    ultimately show "\<lparr>Value = v, Priority = Fin y\<rparr> \<in> set (priorityQueue ?st')"
      using qs by simp
  qed
  have umax: "dist_at ?D u \<le> Fin x" if "u \<in> ?V" for u
    using settled that item0 unfolding I_settled_def by fastforce
  have i8: "I_settled ?st'"
    unfolding I_settled_def
  proof (intro ballI)
    fix v it assume v: "v \<in> visited ?st'" and "it \<in> set (priorityQueue ?st')"
    then have itQ': "it \<in> set ?Q" using qs by simp
    from v consider "v = ?c" | "v \<in> ?V" by auto
    then have "dist_at ?D v \<le> Priority it"
    proof cases
      case 1
      have "dist_at ?D ?c \<le> Priority ?it" by (rule q(2))
      also have "\<dots> \<le> Priority it" using itQ' by (rule mn)
      finally show ?thesis using 1 by simp
    next
      case 2
      with settled itQ' show ?thesis unfolding I_settled_def by blast
    qed
    then show "dist_at (distances ?st') v \<le> Priority it" by simp
  qed
  have i9: "I_rank ?st'"
  proof -
    from rank obtain rk :: "string \<Rightarrow> nat" and n where
      r1: "\<forall>v\<in>?V. rk v < n" and
      r2: "\<forall>v u. ?P v = Some u \<longrightarrow> v \<in> ?V \<longrightarrow> rk u < rk v"
      unfolding I_rank_def by blast
    let ?rk = "rk(?c := n)"
    have r1': "\<forall>v\<in>visited ?st'. ?rk v < Suc n" using r1 by auto
    have r2': "\<forall>v u. previous ?st' v = Some u \<longrightarrow> v \<in> visited ?st' \<longrightarrow> ?rk u < ?rk v"
    proof (intro allI impI)
      fix v u assume p: "previous ?st' v = Some u" and v: "v \<in> visited ?st'"
      from p prev have uV: "u \<in> ?V" unfolding I_prev_def by simp
      then have uc: "u \<noteq> ?c" using nvis by auto
      show "?rk u < ?rk v"
      proof (cases "v = ?c")
        case True
        then show ?thesis using r1 uV uc by simp
      next
        case False
        then have "v \<in> ?V" using v by simp
        then show ?thesis using r2 p False uc by simp
      qed
    qed
    show ?thesis unfolding I_rank_def using r1' r2' by blast
  qed
  have i10: "I_relaxed g ?st' ?c (neighbors_of g ?c)"
    using relaxed unfolding I_relaxed_def by auto
  have i11: "I_cur g ?st' ?c (neighbors_of g ?c)"
    unfolding I_cur_def using Dc dc umax by auto
  show ?thesis unfolding inner_inv_def core_inv_def
    using i1 i2 i3 i4 i5 i6 i7 i8 i9 i10 i11 by blast
qed

lemma outer_inv_iter:
  assumes "outer_inv g s st" and "priorityQueue st \<noteq> []" and "nonneg_weights g"
  shows "outer_inv g s (Dijkstra_iter sel g st)"
proof (cases "Value (fst (heap_Pop sel (priorityQueue st))) \<in> visited st")
  case True
  then have "Dijkstra_iter sel g st = st\<lparr>priorityQueue := snd (heap_Pop sel (priorityQueue st))\<rparr>"
    by (simp add: Dijkstra_iter_def Let_def)
  then show ?thesis using outer_inv_discard[OF assms(1,2) True] by simp
next
  case False
  let ?c = "Value (fst (heap_Pop sel (priorityQueue st)))"
  let ?st' = "st\<lparr>priorityQueue := snd (heap_Pop sel (priorityQueue st)),
               visited := insert ?c (visited st)\<rparr>"
  have "Dijkstra_iter sel g st = foldl (relax ?c) ?st' (neighbors_of g ?c)"
    using False by (simp add: Dijkstra_iter_def Let_def)
  moreover have "inner_inv g s (foldl (relax ?c) ?st' (neighbors_of g ?c)) ?c []"
    using outer_inv_visit[OF assms(1,2) False] assms(3) by (rule inner_inv_foldl)
  ultimately show ?thesis by (simp add: inner_inv_done)
qed

lemma outer_inv_loop:
  "outer_inv g s st \<Longrightarrow> nonneg_weights g \<Longrightarrow>
   outer_inv g s (Dijkstra_loop sel g st) \<and> priorityQueue (Dijkstra_loop sel g st) = []"
proof (induction sel g st rule: Dijkstra_loop.induct)
  case (1 sel graph st)
  show ?case
  proof (cases "priorityQueue st = []")
    case True
    then show ?thesis using "1.prems"(1) by (simp add: Dijkstra_loop_stop)
  next
    case False
    have "outer_inv graph s (Dijkstra_iter sel graph st)"
      using "1.prems"(1) False "1.prems"(2) by (rule outer_inv_iter)
    from "1.IH"[OF False this "1.prems"(2)] show ?thesis
      using False by (simp add: Dijkstra_loop_step)
  qed
qed

lemma outer_inv_init:
  assumes "has_node g s"
  shows "outer_inv g s
           \<lparr>distances = (init_distances g)(s \<mapsto> Fin 0), previous = Map.empty,
            priorityQueue = heap_Push [] \<lparr>Value = s, Priority = Fin 0\<rparr>, visited = {}\<rparr>"
  unfolding outer_inv_def core_inv_def I_dom_def I_start_def I_nonneg_def I_reach_def I_prev_def
    I_queue_def I_front_def I_settled_def I_rank_def I_relaxed_def heap_Push_def
  using assms by (auto simp: init_distances_eq reachable_start split: if_splits)

lemma Dijkstra_result:
  assumes "nonneg_weights g" and "has_node g s"
  shows "\<exists>st. Dijkstra sel (Some g) s = Inr (distances st, previous st) \<and>
              outer_inv g s st \<and> priorityQueue st = []"
proof -
  let ?st0 = "\<lparr>distances = (init_distances g)(s \<mapsto> Fin 0), previous = Map.empty,
            priorityQueue = heap_Push [] \<lparr>Value = s, Priority = Fin 0\<rparr>, visited = {}\<rparr>"
  have "Dijkstra sel (Some g) s =
      Inr (distances (Dijkstra_loop sel g ?st0), previous (Dijkstra_loop sel g ?st0))"
    using assms(2) by (simp add: Dijkstra_def has_node_def Let_def)
  moreover have "outer_inv g s (Dijkstra_loop sel g ?st0) \<and>
      priorityQueue (Dijkstra_loop sel g ?st0) = []"
    using outer_inv_init[OF assms(2)] assms(1) by (rule outer_inv_loop)
  ultimately show ?thesis by blast
qed

section \<open>What Dijkstra returns\<close>

text \<open>
  The statements below hold for every tie-breaking function \<open>sel\<close> of the heap and, the
  graph being any association list, for every order in which the neighbours of a node
  are visited. \<^verbatim>\<open>Dijkstra\<close> is a total function: for a start node of the graph it returns
  its two maps.
\<close>

lemma ReconstructPath_loop_code [code]:
  "ReconstructPath_loop prev start current path =
     (if current \<noteq> start
      then (case prev current of
              None \<Rightarrow> Some (Inl NoPathFound)
            | Some p \<Rightarrow> ReconstructPath_loop prev start p (current # path))
      else Some (Inr (start # path)))"
  by (rule ReconstructPath_loop.simps)

text \<open>Two nodes joined by an edge of weight 1, evaluated.\<close>

lemma Dijkstra_two_nodes:
  assumes "Dijkstra (\<lambda>q. 0) (Some 
       \<lparr>Nodes = [(''a'', True), (''b'', True)],
        Neighbors = [(''a'', [(''b'', 1)]), (''b'', [(''a'', 1)])]\<rparr>) ''a'' = Inr (dmap, prev)"
  shows "dmap ''a'' = Some (Fin 0)" and "dmap ''b'' = Some (Fin 1)"
    and "prev ''a'' = None" and "prev ''b'' = Some ''a''"
  using assms
  by (auto simp add: Dijkstra_def init_distances_def heap_Push_def Dijkstra_loop_step
      Dijkstra_loop_stop Dijkstra_iter_def heap_Pop_def min_positions_def Less_def relax_def
      neighbors_of_def Let_def)

lemma two_nodes_hyps:
  "nonneg_weights 
       \<lparr>Nodes = [(''a'', True), (''b'', True)],
        Neighbors = [(''a'', [(''b'', 1)]), (''b'', [(''a'', 1)])]\<rparr>" "has_node 
       \<lparr>Nodes = [(''a'', True), (''b'', True)],
        Neighbors = [(''a'', [(''b'', 1)]), (''b'', [(''a'', 1)])]\<rparr> ''a''" "(''b'', 1) \<in> set (neighbors_of 
       \<lparr>Nodes = [(''a'', True), (''b'', True)],
        Neighbors = [(''a'', [(''b'', 1)]), (''b'', [(''a'', 1)])]\<rparr> ''a'')"
  by (simp_all add: nonneg_weights_def has_node_def neighbors_of_def)

text \<open>
  C6. For a graph with non-negative weights and a start node of the graph, the distance
  map returned by \<^verbatim>\<open>Dijkstra\<close> has 0 at the start and infinity at every node that cannot
  be reached from it, and \<^verbatim>\<open>ReconstructPath\<close> from the start to such a node fails with
  \<open>NoPathFound\<close>.
\<close>

theorem Dijkstra_source_and_unreachable:
  assumes "nonneg_weights g" and "has_node g s"
  shows "\<exists>dmap prev. Dijkstra sel (Some g) s = Inr (dmap, prev) \<and>
           dmap s = Some (Fin 0) \<and>
           (\<forall>t. has_node g t \<and> \<not> reachable g s t \<longrightarrow>
                dmap t = Some PInf \<and> ReconstructPath prev s t = Some (Inl NoPathFound))"
proof -
  from Dijkstra_result[OF assms, of sel] obtain st where
    r: "Dijkstra sel (Some g) s = Inr (distances st, previous st)" and
    inv: "outer_inv g s st"
    by blast
  from inv have dom: "I_dom g st" and start: "I_start s st" and reach: "I_reach g s st"
    and prev: "I_prev s st"
    by (simp_all add: outer_inv_def core_inv_def)
  have "distances st t = Some PInf \<and> ReconstructPath (previous st) s t = Some (Inl NoPathFound)"
    if t: "has_node g t" "\<not> reachable g s t" for t
  proof -
    from dom t(1) obtain d where d: "distances st t = Some d" unfolding I_dom_def by blast
    have "d = PInf"
    proof (cases d)
      case (Fin x)
      with d reach have "reachable g s t" unfolding I_reach_def by blast
      with t(2) show ?thesis by simp
    qed simp
    moreover have "previous st t = None"
    proof (cases "previous st t")
      case (Some u)
      with prev obtain x where "distances st t = Some (Fin x)" unfolding I_prev_def by blast
      with d \<open>d = PInf\<close> show ?thesis by simp
    qed simp
    moreover have "t \<noteq> s" using t(2) reachable_start by auto
    ultimately show ?thesis using d
      by (simp add: ReconstructPath_def ReconstructPath_loop_missing)
  qed
  moreover have "distances st s = Some (Fin 0)" using start by (simp add: I_start_def)
  ultimately show ?thesis using r by blast
qed

theorem Dijkstra_source_and_unreachable_witness:
  "nonneg_weights 
       \<lparr>Nodes = [(''a'', True), (''b'', True), (''c'', True)],
        Neighbors = [(''a'', [(''b'', 1)]), (''b'', [(''a'', 1)]), (''c'', [])]\<rparr> \<and> has_node 
       \<lparr>Nodes = [(''a'', True), (''b'', True), (''c'', True)],
        Neighbors = [(''a'', [(''b'', 1)]), (''b'', [(''a'', 1)]), (''c'', [])]\<rparr> ''a'' \<and> has_node 
       \<lparr>Nodes = [(''a'', True), (''b'', True), (''c'', True)],
        Neighbors = [(''a'', [(''b'', 1)]), (''b'', [(''a'', 1)]), (''c'', [])]\<rparr> ''c'' \<and>
   \<not> reachable 
       \<lparr>Nodes = [(''a'', True), (''b'', True), (''c'', True)],
        Neighbors = [(''a'', [(''b'', 1)]), (''b'', [(''a'', 1)]), (''c'', [])]\<rparr> ''a'' ''c'' \<and>
   (\<exists>dmap prev. Dijkstra (\<lambda>q. 0) (Some 
       \<lparr>Nodes = [(''a'', True), (''b'', True), (''c'', True)],
        Neighbors = [(''a'', [(''b'', 1)]), (''b'', [(''a'', 1)]), (''c'', [])]\<rparr>) ''a'' = Inr (dmap, prev) \<and>
      dmap ''a'' = Some (Fin 0) \<and> dmap ''c'' = Some PInf \<and>
      ReconstructPath prev ''a'' ''c'' = Some (Inl NoPathFound))"
proof -
  let ?G = "
       \<lparr>Nodes = [(''a'', True), (''b'', True), (''c'', True)],
        Neighbors = [(''a'', [(''b'', 1)]), (''b'', [(''a'', 1)]), (''c'', [])]\<rparr>"
  have h1: "nonneg_weights ?G" by (simp add: nonneg_weights_def)
  have h2: "has_node ?G ''a''" and h3: "has_node ?G ''c''" by (simp_all add: has_node_def)
  have "v = ''a'' \<or> v = ''b''" if "reachable ?G ''a'' v" for v
    using that by (induction rule: reachable.induct) (auto simp: neighbors_of_def split: if_splits)
  then have h4: "\<not> reachable ?G ''a'' ''c''" by fastforce
  from Dijkstra_source_and_unreachable[OF h1 h2, of "\<lambda>q. 0"] obtain dmap prev where
    r: "Dijkstra (\<lambda>q. 0) (Some ?G) ''a'' = Inr (dmap, prev)" "dmap ''a'' = Some (Fin 0)"
    "\<forall>t. has_node ?G t \<and> \<not> reachable ?G ''a'' t \<longrightarrow>
         dmap t = Some PInf \<and> ReconstructPath prev ''a'' t = Some (Inl NoPathFound)"
    by blast
  from r(3) h3 h4 have "dmap ''c'' = Some PInf"
    "ReconstructPath prev ''a'' ''c'' = Some (Inl NoPathFound)" by blast+
  with r(1,2) h1 h2 h3 h4 show ?thesis by blast
qed

text \<open>
  C7. For a graph with non-negative weights and a start node of the graph, the distance
  map returned by \<^verbatim>\<open>Dijkstra\<close> satisfies the triangle inequality along every edge that
  leaves a node: the distance of \<open>w\<close> is at most the distance of \<open>v\<close> plus the weight of
  the edge from \<open>v\<close> to \<open>w\<close>. (All nodes, reachable or not; a distance is read as the
  program reads its map.)
\<close>

theorem Dijkstra_triangle_inequality:
  assumes "nonneg_weights g" and "has_node g s"
  shows "\<exists>dmap prev. Dijkstra sel (Some g) s = Inr (dmap, prev) \<and>
           (\<forall>v w c. has_node g v \<and> (w, c) \<in> set (neighbors_of g v) \<longrightarrow>
                dist_at dmap w \<le> xadd (dist_at dmap v) c)"
proof -
  from Dijkstra_result[OF assms, of sel] obtain st where
    r: "Dijkstra sel (Some g) s = Inr (distances st, previous st)" and
    inv: "outer_inv g s st" and q: "priorityQueue st = []"
    by blast
  from inv have dom: "I_dom g st" and front: "I_front st" and relaxed: "I_relaxed g st [] []"
    by (simp_all add: outer_inv_def core_inv_def)
  have "dist_at (distances st) w \<le> xadd (dist_at (distances st) v) c"
    if v: "has_node g v" and e: "(w, c) \<in> set (neighbors_of g v)" for v w c
  proof -
    from dom v obtain d where d: "distances st v = Some d" unfolding I_dom_def by blast
    show ?thesis
    proof (cases d)
      case (Fin x)
      have "v \<in> visited st"
      proof (rule ccontr)
        assume "v \<notin> visited st"
        with front d Fin have "\<lparr>Value = v, Priority = Fin x\<rparr> \<in> set (priorityQueue st)"
          unfolding I_front_def by blast
        with q show False by simp
      qed
      with relaxed e show ?thesis unfolding I_relaxed_def by fastforce
    next
      case PInf
      with d show ?thesis by simp
    qed
  qed
  with r show ?thesis by blast
qed

theorem Dijkstra_triangle_inequality_witness:
  "nonneg_weights 
       \<lparr>Nodes = [(''a'', True), (''b'', True)],
        Neighbors = [(''a'', [(''b'', 1)]), (''b'', [(''a'', 1)])]\<rparr> \<and> has_node 
       \<lparr>Nodes = [(''a'', True), (''b'', True)],
        Neighbors = [(''a'', [(''b'', 1)]), (''b'', [(''a'', 1)])]\<rparr> ''a'' \<and> (''b'', 1) \<in> set (neighbors_of 
       \<lparr>Nodes = [(''a'', True), (''b'', True)],
        Neighbors = [(''a'', [(''b'', 1)]), (''b'', [(''a'', 1)])]\<rparr> ''a'') \<and>
   (\<exists>dmap prev. Dijkstra (\<lambda>q. 0) (Some 
       \<lparr>Nodes = [(''a'', True), (''b'', True)],
        Neighbors = [(''a'', [(''b'', 1)]), (''b'', [(''a'', 1)])]\<rparr>) ''a'' = Inr (dmap, prev) \<and>
      dmap ''a'' = Some (Fin 0) \<and> dmap ''b'' = Some (Fin 1) \<and>
      dist_at dmap ''b'' \<le> xadd (dist_at dmap ''a'') 1)"
proof -
  from Dijkstra_triangle_inequality[OF two_nodes_hyps(1,2), of "\<lambda>q. 0"] obtain dmap prev where
    r: "Dijkstra (\<lambda>q. 0) (Some 
       \<lparr>Nodes = [(''a'', True), (''b'', True)],
        Neighbors = [(''a'', [(''b'', 1)]), (''b'', [(''a'', 1)])]\<rparr>) ''a'' = Inr (dmap, prev)"
    "\<forall>v w c. has_node 
       \<lparr>Nodes = [(''a'', True), (''b'', True)],
        Neighbors = [(''a'', [(''b'', 1)]), (''b'', [(''a'', 1)])]\<rparr> v \<and> (w, c) \<in> set (neighbors_of 
       \<lparr>Nodes = [(''a'', True), (''b'', True)],
        Neighbors = [(''a'', [(''b'', 1)]), (''b'', [(''a'', 1)])]\<rparr> v) \<longrightarrow>
         dist_at dmap w \<le> xadd (dist_at dmap v) c"
    by blast
  from r(2) two_nodes_hyps(2,3) have "dist_at dmap ''b'' \<le> xadd (dist_at dmap ''a'') 1"
    by blast
  with r(1) Dijkstra_two_nodes(1,2)[OF r(1)] two_nodes_hyps show ?thesis by blast
qed

text \<open>
  C9. For a graph with non-negative weights and a start node of the graph, the
  predecessor map returned by \<^verbatim>\<open>Dijkstra\<close> has no entry for the start node, and every
  node with a predecessor entry has a finite distance.
\<close>

theorem Dijkstra_previous_entries:
  assumes "nonneg_weights g" and "has_node g s"
  shows "\<exists>dmap prev. Dijkstra sel (Some g) s = Inr (dmap, prev) \<and>
           prev s = None \<and>
           (\<forall>v u. prev v = Some u \<longrightarrow> (\<exists>x. dmap v = Some (Fin x)))"
proof -
  from Dijkstra_result[OF assms, of sel] obtain st where
    r: "Dijkstra sel (Some g) s = Inr (distances st, previous st)" and
    inv: "outer_inv g s st"
    by blast
  from inv have prev: "I_prev s st" by (simp add: outer_inv_def core_inv_def)
  have "previous st s = None"
  proof (cases "previous st s")
    case (Some u)
    with prev show ?thesis unfolding I_prev_def by blast
  qed simp
  moreover have "\<forall>v u. previous st v = Some u \<longrightarrow> (\<exists>x. distances st v = Some (Fin x))"
    using prev unfolding I_prev_def by blast
  ultimately show ?thesis using r by blast
qed

theorem Dijkstra_previous_entries_witness:
  "nonneg_weights 
       \<lparr>Nodes = [(''a'', True), (''b'', True)],
        Neighbors = [(''a'', [(''b'', 1)]), (''b'', [(''a'', 1)])]\<rparr> \<and> has_node 
       \<lparr>Nodes = [(''a'', True), (''b'', True)],
        Neighbors = [(''a'', [(''b'', 1)]), (''b'', [(''a'', 1)])]\<rparr> ''a'' \<and>
   (\<exists>dmap prev. Dijkstra (\<lambda>q. 0) (Some 
       \<lparr>Nodes = [(''a'', True), (''b'', True)],
        Neighbors = [(''a'', [(''b'', 1)]), (''b'', [(''a'', 1)])]\<rparr>) ''a'' = Inr (dmap, prev) \<and>
      prev ''a'' = None \<and> prev ''b'' = Some ''a'' \<and> (\<exists>x. dmap ''b'' = Some (Fin x)))"
proof -
  from Dijkstra_previous_entries[OF two_nodes_hyps(1,2), of "\<lambda>q. 0"] obtain dmap prev where
    r: "Dijkstra (\<lambda>q. 0) (Some 
       \<lparr>Nodes = [(''a'', True), (''b'', True)],
        Neighbors = [(''a'', [(''b'', 1)]), (''b'', [(''a'', 1)])]\<rparr>) ''a'' = Inr (dmap, prev)" "prev ''a'' = None"
    "\<forall>v u. prev v = Some u \<longrightarrow> (\<exists>x. dmap v = Some (Fin x))"
    by blast
  have p: "prev ''b'' = Some ''a''" using r(1) by (rule Dijkstra_two_nodes(4))
  with r(3) have "\<exists>x. dmap ''b'' = Some (Fin x)" by blast
  with r(1,2) p two_nodes_hyps show ?thesis by blast
qed

lemma ReconstructPath_loop_ranked:
  fixes rk :: "string \<Rightarrow> nat"
  assumes "\<And>v u. prev v = Some u \<Longrightarrow> rk u < rk v"
  shows "\<exists>r. ReconstructPath_loop prev s cur path = Some r"
proof (induction cur arbitrary: path rule: measure_induct_rule[where f = rk])
  case (less cur)
  show ?case
  proof (cases "cur = s")
    case True
    then show ?thesis by (simp add: ReconstructPath_loop_found)
  next
    case ne: False
    show ?thesis
    proof (cases "prev cur")
      case None
      with ne show ?thesis by (simp add: ReconstructPath_loop_missing)
    next
      case (Some u)
      then have "rk u < rk cur" by (rule assms)
      from less.IH[OF this, of "cur # path"] show ?thesis
        using ne Some by (simp add: ReconstructPath_loop_step)
    qed
  qed
qed

text \<open>
  C10. For a graph with non-negative weights and a start node of the graph, the
  predecessor map returned by \<^verbatim>\<open>Dijkstra\<close> has no infinite chain of predecessor links (it
  is well-founded, hence acyclic), and \<^verbatim>\<open>ReconstructPath\<close> from the start returns for
  every target.
\<close>

theorem ReconstructPath_terminates:
  assumes "nonneg_weights g" and "has_node g s"
  shows "\<exists>dmap prev. Dijkstra sel (Some g) s = Inr (dmap, prev) \<and>
           wf {(u, v). prev v = Some u} \<and>
           (\<forall>t. \<exists>r. ReconstructPath prev s t = Some r)"
proof -
  from Dijkstra_result[OF assms, of sel] obtain st where
    r: "Dijkstra sel (Some g) s = Inr (distances st, previous st)" and
    inv: "outer_inv g s st" and q: "priorityQueue st = []"
    by blast
  from inv have prev: "I_prev s st" and front: "I_front st" and rank: "I_rank st"
    by (simp_all add: outer_inv_def core_inv_def)
  from rank obtain rk :: "string \<Rightarrow> nat" where
    r2: "\<forall>v u. previous st v = Some u \<longrightarrow> v \<in> visited st \<longrightarrow> rk u < rk v"
    unfolding I_rank_def by blast
  have lt: "rk u < rk v" if p: "previous st v = Some u" for v u
  proof -
    from prev p obtain x where d: "distances st v = Some (Fin x)" unfolding I_prev_def by blast
    have "v \<in> visited st"
    proof (rule ccontr)
      assume "v \<notin> visited st"
      with front d have "\<lparr>Value = v, Priority = Fin x\<rparr> \<in> set (priorityQueue st)"
        unfolding I_front_def by blast
      with q show False by simp
    qed
    with r2 p show ?thesis by blast
  qed
  have "{(u, v). previous st v = Some u} \<subseteq> measure rk" using lt by auto
  then have w: "wf {(u, v). previous st v = Some u}" by (rule wf_subset[OF wf_measure])
  have "\<forall>t. \<exists>r. ReconstructPath (previous st) s t = Some r"
    unfolding ReconstructPath_def using ReconstructPath_loop_ranked[of "previous st" rk, OF lt]
    by blast
  with r w show ?thesis by blast
qed



theorem ReconstructPath_terminates_witness:
  "nonneg_weights 
       \<lparr>Nodes = [(''a'', True), (''b'', True)],
        Neighbors = [(''a'', [(''b'', 1)]), (''b'', [(''a'', 1)])]\<rparr> \<and> has_node 
       \<lparr>Nodes = [(''a'', True), (''b'', True)],
        Neighbors = [(''a'', [(''b'', 1)]), (''b'', [(''a'', 1)])]\<rparr> ''a'' \<and>
   (\<exists>dmap prev. Dijkstra (\<lambda>q. 0) (Some 
       \<lparr>Nodes = [(''a'', True), (''b'', True)],
        Neighbors = [(''a'', [(''b'', 1)]), (''b'', [(''a'', 1)])]\<rparr>) ''a'' = Inr (dmap, prev) \<and>
      wf {(u, v). prev v = Some u} \<and>
      ReconstructPath prev ''a'' ''b'' = Some (Inr [''a'', ''b'']))"
proof -
  from ReconstructPath_terminates[OF two_nodes_hyps(1,2), of "\<lambda>q. 0"] obtain dmap prev where
    r: "Dijkstra (\<lambda>q. 0) (Some 
       \<lparr>Nodes = [(''a'', True), (''b'', True)],
        Neighbors = [(''a'', [(''b'', 1)]), (''b'', [(''a'', 1)])]\<rparr>) ''a'' = Inr (dmap, prev)"
    "wf {(u, v). prev v = Some u}"
    by blast
  have p: "prev ''b'' = Some ''a''" using r(1) by (rule Dijkstra_two_nodes(4))
  then have "ReconstructPath prev ''a'' ''b'' = Some (Inr [''a'', ''b''])"
    by (simp add: ReconstructPath_def ReconstructPath_loop_step ReconstructPath_loop_found)
  with r two_nodes_hyps show ?thesis by blast
qed

text \<open>
  \<^verbatim>\<open>Dijkstra\<close> fails on a nil graph and on a start node that is not in the graph.
\<close>

theorem Dijkstra_rejects:
  "Dijkstra sel None start = Inl GraphIsNil \<and>
   (\<not> has_node g start \<longrightarrow> Dijkstra sel (Some g) start = Inl UnknownStartNode)"
  by (simp add: Dijkstra_def has_node_def)

theorem Dijkstra_rejects_witness:
  "\<not> has_node NewGraph ''a'' \<and> Dijkstra (\<lambda>q. 0) (Some NewGraph) ''a'' = Inl UnknownStartNode"
  using Dijkstra_rejects[of "\<lambda>q. 0" "''a''" NewGraph] by (simp add: has_node_def NewGraph_def)

end
